theory Spec2Isabelle
  imports Main "HOL-Library.Sublist"
begin

section \<open>Text of the interpreter\<close>

text \<open>
  A Python \<open>str\<close> is a sequence of Unicode code points, a \<open>bytes\<close> value a sequence of
  bytes. Code points are natural numbers; a byte string is a HOL \<open>string\<close>, whose
  characters are bytes.
\<close>

type_synonym ustring = "nat list"

definition ustr :: "string \<Rightarrow> ustring" where
  "ustr s = map of_char s"

text \<open>
  What the script takes from the running interpreter and cannot be read off the
  repository: the Unicode character database beyond ASCII (decimal digits, alphanumerics
  and lower-case mappings of characters from 128 on) and the built-in \<open>hash\<close> of a
  \<open>str\<close>, which CPython keys with a secret of the process (\<open>PYTHONHASHSEED\<close>).
  \<open>uni_lower before c after\<close> is the lower-case expansion of the non-ASCII character
  \<open>c\<close> standing between \<open>before\<close> and \<open>after\<close>.
\<close>

record interp =
  uni_decimal :: "nat \<Rightarrow> bool"
  uni_alnum :: "nat \<Rightarrow> bool"
  uni_lower :: "ustring \<Rightarrow> nat \<Rightarrow> ustring \<Rightarrow> ustring"
  str_hash :: "ustring \<Rightarrow> int"

text \<open>\<open>bytes.decode("utf-8")\<close> in strict mode: \<open>None\<close> is \<open>UnicodeDecodeError\<close>.\<close>

definition continuation :: "nat \<Rightarrow> bool" where
  "continuation b = (128 \<le> b \<and> b \<le> 191)"

fun decode_utf8 :: "string \<Rightarrow> ustring option" where
  "decode_utf8 [] = Some []"
| "decode_utf8 (b0 # bs) =
     (let a = (of_char b0 :: nat) in
      if a < 128 then map_option (Cons a) (decode_utf8 bs)
      else if 194 \<le> a \<and> a \<le> 223 then
        (case bs of
           b1 # r \<Rightarrow>
             (let b = (of_char b1 :: nat) in
              if continuation b
              then map_option (Cons ((a - 192) * 64 + (b - 128))) (decode_utf8 r)
              else None)
         | _ \<Rightarrow> None)
      else if 224 \<le> a \<and> a \<le> 239 then
        (case bs of
           b1 # b2 # r \<Rightarrow>
             (let b = (of_char b1 :: nat); c = (of_char b2 :: nat) in
              if (if a = 224 then 160 else 128) \<le> b \<and> b \<le> (if a = 237 then 159 else 191)
                 \<and> continuation c
              then map_option (Cons ((a - 224) * 4096 + (b - 128) * 64 + (c - 128)))
                     (decode_utf8 r)
              else None)
         | _ \<Rightarrow> None)
      else if 240 \<le> a \<and> a \<le> 244 then
        (case bs of
           b1 # b2 # b3 # r \<Rightarrow>
             (let b = (of_char b1 :: nat); c = (of_char b2 :: nat); d = (of_char b3 :: nat) in
              if (if a = 240 then 144 else 128) \<le> b \<and> b \<le> (if a = 244 then 143 else 191)
                 \<and> continuation c \<and> continuation d
              then map_option
                     (Cons ((a - 240) * 262144 + (b - 128) * 4096 + (c - 128) * 64 + (d - 128)))
                     (decode_utf8 r)
              else None)
         | _ \<Rightarrow> None)
      else None)"

text \<open>\<open>str.lower()\<close>: ASCII letters by the ASCII rule, every other character by the database.\<close>

definition ascii_lower :: "nat \<Rightarrow> nat" where
  "ascii_lower c = (if 65 \<le> c \<and> c \<le> 90 then c + 32 else c)"

fun lower_from :: "interp \<Rightarrow> ustring \<Rightarrow> ustring \<Rightarrow> ustring \<Rightarrow> ustring" where
  "lower_from I pre [] post = []"
| "lower_from I pre (c # cs) post =
     (if c < 128 then [ascii_lower c] else uni_lower I pre c (cs @ post))
     @ lower_from I (pre @ [c]) cs post"

definition py_lower :: "interp \<Rightarrow> ustring \<Rightarrow> ustring" where
  "py_lower I s = lower_from I [] s []"

text \<open>\<open>str.split(sep)\<close> for a separator of one character, and \<open>sep.join(pieces)\<close>.\<close>

fun split_char :: "nat \<Rightarrow> ustring \<Rightarrow> ustring list" where
  "split_char sep [] = [[]]"
| "split_char sep (c # cs) =
     (let r = split_char sep cs
      in if c = sep then [] # r else (c # hd r) # tl r)"

fun join :: "ustring \<Rightarrow> ustring list \<Rightarrow> ustring" where
  "join sep [] = []"
| "join sep [x] = x"
| "join sep (x # y # ys) = x @ sep @ join sep (y # ys)"

section \<open>The regular expressions of the script\<close>

text \<open>
  Every pattern of the script is a sequence of single-character classes, each under a
  greedy quantifier: a literal, \<open>\d\<close>, \<open>\w\<close>, \<open>.\<close> or a bracketed set, taken once,
  \<open>+\<close>, \<open>*\<close> or \<open>{n}\<close> times. \<open>Rep c lo hi\<close> is the class \<open>c\<close> repeated at least \<open>lo\<close>
  and at most \<open>hi\<close> times (\<open>None\<close>: unbounded).
\<close>

datatype cls = Lit nat | Digit | Word | Dot | Or cls cls

datatype item = Rep cls nat "nat option"

abbreviation One :: "cls \<Rightarrow> item" where
  "One c \<equiv> Rep c 1 (Some 1)"

abbreviation Plus :: "cls \<Rightarrow> item" where
  "Plus c \<equiv> Rep c 1 None"

abbreviation Star :: "cls \<Rightarrow> item" where
  "Star c \<equiv> Rep c 0 None"

abbreviation Exactly :: "nat \<Rightarrow> cls \<Rightarrow> item" where
  "Exactly n c \<equiv> Rep c n (Some n)"

type_synonym regex = "item list"

definition lits :: "string \<Rightarrow> regex" where
  "lits s = map (\<lambda>c. One (Lit (of_char c))) s"

fun cls_ok :: "interp \<Rightarrow> cls \<Rightarrow> nat \<Rightarrow> bool" where
  "cls_ok I (Lit a) c = (c = a)"
| "cls_ok I Digit c = (if c < 128 then 48 \<le> c \<and> c \<le> 57 else uni_decimal I c)"
| "cls_ok I Word c =
     (if c < 128
      then (48 \<le> c \<and> c \<le> 57) \<or> (65 \<le> c \<and> c \<le> 90) \<or> (97 \<le> c \<and> c \<le> 122) \<or> c = 95
      else uni_alnum I c)"
| "cls_ok I Dot c = (c \<noteq> 10)"
| "cls_ok I (Or a b) c = (cls_ok I a c \<or> cls_ok I b c)"

fun min_rep :: "item \<Rightarrow> nat" where
  "min_rep (Rep c lo hi) = lo"

text \<open>The most repetitions a greedy quantifier can take at the head of \<open>s\<close>.\<close>

fun greedy_max :: "interp \<Rightarrow> item \<Rightarrow> ustring \<Rightarrow> nat" where
  "greedy_max I (Rep c lo hi) s =
     (let n = length (takeWhile (cls_ok I c) s)
      in case hi of None \<Rightarrow> n | Some h \<Rightarrow> min n h)"

text \<open>
  Backtracking: with \<open>n\<close> repetitions taken, match the rest of the pattern (\<open>k\<close>) on what
  is left; when that fails give one repetition back, down to \<open>lo\<close>. The result lists the
  number of characters each item took.
\<close>

fun backtrack :: "(ustring \<Rightarrow> nat list option) \<Rightarrow> ustring \<Rightarrow> nat \<Rightarrow> nat \<Rightarrow> nat list option" where
  "backtrack k s lo 0 =
     (if 0 < lo then None else map_option (Cons 0) (k s))"
| "backtrack k s lo (Suc n) =
     (if Suc n < lo then None
      else case k (drop (Suc n) s) of
             Some ns \<Rightarrow> Some (Suc n # ns)
           | None \<Rightarrow> backtrack k s lo n)"

primrec match_items :: "interp \<Rightarrow> regex \<Rightarrow> ustring \<Rightarrow> nat list option" where
  "match_items I [] = (\<lambda>s. Some [])"
| "match_items I (it # r) =
     (\<lambda>s. backtrack (match_items I r) s (min_rep it) (greedy_max I it s))"

text \<open>\<open>re.match(p, s)\<close>: the pattern anchored at the start of \<open>s\<close>.\<close>

definition re_match :: "interp \<Rightarrow> regex \<Rightarrow> ustring \<Rightarrow> nat list option" where
  "re_match I p s = match_items I p s"

text \<open>The text taken by the \<open>n\<close> items that start at item \<open>i\<close>: a capture group.\<close>

definition group_text :: "nat list \<Rightarrow> ustring \<Rightarrow> nat \<Rightarrow> nat \<Rightarrow> ustring" where
  "group_text ns s i n =
     take (sum_list (take n (drop i ns))) (drop (sum_list (take i ns)) s)"

text \<open>\<open>re.search(p, s)\<close>: the leftmost position with a match, and the length matched there.\<close>

fun re_search :: "interp \<Rightarrow> regex \<Rightarrow> ustring \<Rightarrow> (nat \<times> nat) option" where
  "re_search I p [] = map_option (\<lambda>ns. (0, sum_list ns)) (match_items I p [])"
| "re_search I p (c # cs) =
     (case match_items I p (c # cs) of
        Some ns \<Rightarrow> Some (0, sum_list ns)
      | None \<Rightarrow> map_option (\<lambda>(i, n). (Suc i, n)) (re_search I p cs))"

text \<open>
  \<open>re.sub(p, repl, s)\<close> for a replacement without group references: every match from
  left to right is replaced, the scan going on where the match ended; after an empty
  match one character is copied.
\<close>

function re_sub :: "interp \<Rightarrow> regex \<Rightarrow> ustring \<Rightarrow> ustring \<Rightarrow> ustring" where
  "re_sub I p repl [] =
     (case match_items I p [] of None \<Rightarrow> [] | Some ns \<Rightarrow> repl)"
| "re_sub I p repl (c # cs) =
     (case match_items I p (c # cs) of
        None \<Rightarrow> c # re_sub I p repl cs
      | Some ns \<Rightarrow>
          (if sum_list ns = 0 then repl @ c # re_sub I p repl cs
           else repl @ re_sub I p repl (drop (sum_list ns) (c # cs))))"
  by pat_completeness auto
termination
  by (relation "measure (\<lambda>(I, p, repl, s). length s)") (auto simp del: sum_list_eq_0_iff)

text \<open>
  What a pattern matches, without the order of the search: \<open>lang I p u\<close> holds when the
  items of \<open>p\<close> can divide \<open>u\<close> among them. The backtracking matcher finds a prefix of
  its input in this language whenever there is one.
\<close>

fun item_cls :: "item \<Rightarrow> cls" where
  "item_cls (Rep c lo hi) = c"

fun max_rep_ok :: "item \<Rightarrow> nat \<Rightarrow> bool" where
  "max_rep_ok (Rep c lo hi) k = (case hi of None \<Rightarrow> True | Some h \<Rightarrow> k \<le> h)"

primrec lang :: "interp \<Rightarrow> regex \<Rightarrow> ustring \<Rightarrow> bool" where
  "lang I [] u = (u = [])"
| "lang I (it # r) u =
     (\<exists>k\<le>length u. min_rep it \<le> k \<and> max_rep_ok it k
        \<and> (\<forall>c\<in>set (take k u). cls_ok I (item_cls it) c) \<and> lang I r (drop k u))"

text \<open>A text without any match of a pattern; a pattern that cannot take a line feed; a
  pattern whose matches run up to the end of the line.\<close>

definition clean :: "interp \<Rightarrow> regex \<Rightarrow> ustring \<Rightarrow> bool" where
  "clean I p s = (\<forall>u. sublist u s \<longrightarrow> \<not> lang I p u)"

definition nl_free :: "interp \<Rightarrow> regex \<Rightarrow> bool" where
  "nl_free I p = (\<forall>it\<in>set p. \<not> cls_ok I (item_cls it) 10)"

definition to_eol :: "interp \<Rightarrow> regex \<Rightarrow> bool" where
  "to_eol I p =
     (\<forall>s ns. match_items I p s = Some ns \<longrightarrow>
        drop (sum_list ns) s = [] \<or> hd (drop (sum_list ns) s) = 10)"

section \<open>The script\<close>

record ProcessResult =
  returncode :: int
  stdout :: "string list"
  stderr :: "string list"

text \<open>Line 18.\<close>

definition DONT_ASSIGN :: "ustring list" where
  "DONT_ASSIGN = [ustr ''dotlambda'', ustr ''SuperSandro2000'']"

text \<open>Lines 20 to 36: the command line.\<close>

record args =
  attr :: ustring
  cc :: "ustring list"

text \<open>Line 86.\<close>

definition stderr_utf8 :: "ProcessResult \<Rightarrow> ustring list option" where
  "stderr_utf8 build_result = those (map decode_utf8 (stderr build_result))"

text \<open>Lines 98 to 100, in five pieces so that the two groups can be addressed.\<close>

definition fel_prefix :: regex where
  "fel_prefix = lits ''error: builder for '' @ [One (Lit 39)] @ lits ''/nix/store/''"

definition fel_group1 :: regex where
  "fel_group1 = [Exactly 32 Word]"

definition fel_middle :: regex where
  "fel_middle = lits ''-''"

definition fel_group2 :: regex where
  "fel_group2 = [Star Dot]"

definition fel_suffix :: regex where
  "fel_suffix = [One Dot] @ lits ''drv'' @ [One (Lit 39)] @ lits '' failed with exit code ''
                @ [Plus Digit] @ lits '';''"

definition first_error_line_re :: regex where
  "first_error_line_re = fel_prefix @ fel_group1 @ fel_middle @ fel_group2 @ fel_suffix"

definition group1 :: "nat list \<Rightarrow> ustring \<Rightarrow> ustring" where
  "group1 ns line = group_text ns line (length fel_prefix) (length fel_group1)"

definition group2 :: "nat list \<Rightarrow> ustring \<Rightarrow> ustring" where
  "group2 ns line =
     group_text ns line (length (fel_prefix @ fel_group1 @ fel_middle)) (length fel_group2)"

text \<open>
  Lines 101 to 105: the matching lines with their indices. The match object is kept as
  the line together with the lengths the items took.
\<close>

definition first_error_lines :: "interp \<Rightarrow> ustring list \<Rightarrow> (nat \<times> ustring \<times> nat list) list" where
  "first_error_lines I lines =
     List.map_filter
       (\<lambda>(ix, line). map_option (\<lambda>ns. (ix, line, ns)) (re_match I first_error_line_re line))
       (enumerate 0 lines)"

text \<open>Line 122: the slice \<open>[ix + 2 : ix + 12]\<close>; a slice stops at the end of the list.\<close>

definition last_10_log_lines :: "ustring list \<Rightarrow> nat \<Rightarrow> ustring list" where
  "last_10_log_lines lines first_error_line_ix =
     take ((first_error_line_ix + 12) - (first_error_line_ix + 2))
       (drop (first_error_line_ix + 2) lines)"

text \<open>Lines 128 to 147: the patterns, in the order of their passes.\<close>

definition decimal_seconds_re :: regex where
  "decimal_seconds_re = [Plus Digit, One Dot, Plus Digit] @ lits ''s''"

definition hms_re :: regex where
  "hms_re = [Plus Digit] @ lits '':'' @ [Plus Digit] @ lits '':'' @ [Plus Digit]"

definition minutes_re :: regex where
  "minutes_re = [Plus Digit] @ lits '' minutes''"

definition seconds_re :: regex where
  "seconds_re = [Plus Digit] @ lits '' seconds''"

definition store_path_re :: regex where
  "store_path_re = lits ''/nix/store/'' @ [Exactly 32 Word]"

definition comma_digit_plus :: cls where
  "comma_digit_plus = Or (Lit (of_char CHR '','')) (Or Digit (Lit (of_char CHR ''+'')))"

definition bazel_re :: regex where
  "bazel_re = lits ''> ['' @ [Star comma_digit_plus] @ lits '' / '' @ [Star comma_digit_plus]
              @ lits ''] '' @ [Star Dot]"

definition info_re :: regex where
  "info_re = lits ''> INFO:'' @ [Star Dot]"

definition semver_re :: regex where
  "semver_re = [Plus Digit] @ lits ''.'' @ [Plus Digit] @ lits ''.'' @ [Plus Digit]"

definition purify :: "interp \<Rightarrow> ustring \<Rightarrow> ustring" where
  "purify I text =
     re_sub I semver_re []
       (re_sub I info_re []
         (re_sub I bazel_re []
           (re_sub I store_path_re []
             (re_sub I seconds_re []
               (re_sub I minutes_re []
                 (re_sub I hms_re []
                   (re_sub I decimal_seconds_re [] text)))))))"

definition last_10_log_lines_pure :: "interp \<Rightarrow> ustring list \<Rightarrow> ustring" where
  "last_10_log_lines_pure I excerpt = purify I (concat excerpt)"

text \<open>Lines 151 and 152: the two f-strings and their hashes.\<close>

definition logs_tag_text :: "ustring \<Rightarrow> ustring \<Rightarrow> ustring" where
  "logs_tag_text failing_pname_version pure =
     ustr ''nixpkgs-upkeep '' @ failing_pname_version @ ustr '' '' @ pure"

definition drv_tag_text :: "ustring \<Rightarrow> ustring" where
  "drv_tag_text failing_drv_hash = ustr ''nixpkgs-upkeep '' @ failing_drv_hash"

definition logs_tag :: "interp \<Rightarrow> ustring \<Rightarrow> ustring \<Rightarrow> int" where
  "logs_tag I failing_pname_version pure =
     str_hash I (logs_tag_text failing_pname_version pure)"

definition drv_tag :: "interp \<Rightarrow> ustring \<Rightarrow> int" where
  "drv_tag I failing_drv_hash = str_hash I (drv_tag_text failing_drv_hash)"

text \<open>
  The ways the script ends, and what it does to the world before. \<open>SysExit n\<close> is
  \<open>sys.exit(n)\<close>; \<open>Raised\<close> is an exception nobody catches.
\<close>

datatype outcome = SysExit int | Raised

datatype response = TotalCount int | RequestFailed

datatype maintainers = Maintainers "ustring list" | EvalFailed | EvalRaised

record gh_issue =
  assignee :: ustring
  title :: ustring

datatype event =
    Sleep
  | Search int response
  | GitLog
  | NixEval ustring
  | ReadConfig
  | NixInfo
  | IssueCreate gh_issue int

text \<open>
  The answers of the world in one run: the search service to the first and to the second
  query (\<open>RequestFailed\<close>: the request or the reading of \<open>total_count\<close> raises), \<open>git log\<close>,
  \<open>nix eval\<close> for the maintainers of an attribute (\<open>EvalFailed\<close>: a non-zero return code),
  the configuration file, \<open>nix-info\<close>, and the return code of \<open>gh issue create\<close>.
  \<open>None\<close> is a call that raises.
\<close>

record world =
  search_logs :: response
  search_drv :: response
  git_log :: "ustring option"
  nix_eval :: "ustring \<Rightarrow> maintainers"
  config_nix :: "ustring option"
  nix_info :: "ustring option"
  gh_returncode :: int

text \<open>
  Lines 81 to 122. The early ends are named by what the script prints there; \<open>Found\<close>
  carries \<open>first_error_line_ix\<close>, \<open>failing_drv_hash\<close>, \<open>failing_pname_version\<close>, the
  decoded lines and \<open>last_10_log_lines\<close>.
\<close>

datatype early = BuildSucceeded | DecodeError | NoSpaceLeft | Killed | NoErrorLine

record failure =
  first_error_line_ix :: nat
  failing_drv_hash :: ustring
  failing_pname_version :: ustring
  excerpt :: "ustring list"

definition classify :: "interp \<Rightarrow> ProcessResult \<Rightarrow> early + failure" where
  "classify I build_result =
     (if returncode build_result = 0 then Inl BuildSucceeded
      else case stderr_utf8 build_result of
        None \<Rightarrow> Inl DecodeError
      | Some lines \<Rightarrow>
          if sublist (ustr ''no space left on device'') (py_lower I (concat lines))
          then Inl NoSpaceLeft
          else if sublist (ustr ''Killed'') (concat lines) then Inl Killed
          else case first_error_lines I lines of
            [(ix, line, ns)] \<Rightarrow>
              Inr \<lparr>first_error_line_ix = ix,
                   failing_drv_hash = group1 ns line,
                   failing_pname_version = group2 ns line,
                   excerpt = last_10_log_lines lines ix\<rparr>
          | _ \<Rightarrow> Inl NoErrorLine)"

definition early_exit :: "ProcessResult \<Rightarrow> early \<Rightarrow> outcome" where
  "early_exit build_result e =
     (case e of
        BuildSucceeded \<Rightarrow> SysExit 0
      | DecodeError \<Rightarrow> Raised
      | NoSpaceLeft \<Rightarrow> SysExit 0
      | Killed \<Rightarrow> SysExit 0
      | NoErrorLine \<Rightarrow> SysExit (returncode build_result))"

text \<open>Lines 155 to 171: \<open>Some\<close> is the end of the script, \<open>None\<close> a return to the caller.\<close>

definition find_existing_issues :: "response \<Rightarrow> outcome option" where
  "find_existing_issues r =
     (case r of
        RequestFailed \<Rightarrow> Some Raised
      | TotalCount existing_issues_count \<Rightarrow>
          if existing_issues_count > 0 then Some (SysExit 0) else None)"

text \<open>Lines 193 to 195.\<close>

definition hyphen :: nat where
  "hyphen = of_char CHR ''-''"

definition split_pname_version :: "ustring \<Rightarrow> ustring \<times> ustring" where
  "split_pname_version pname_version =
     (let pieces = split_char hyphen pname_version
      in (join [hyphen] (butlast pieces), last pieces))"

text \<open>Lines 201 to 215.\<close>

definition pname_to_attr :: "ustring \<Rightarrow> ustring" where
  "pname_to_attr pname =
     (if prefix (ustr ''python3.9-'') pname then ustr ''python39Packages.'' @ drop 10 pname
      else if prefix (ustr ''python3.10-'') pname then ustr ''python310Packages.'' @ drop 11 pname
      else if prefix (ustr ''python3.11-'') pname then ustr ''python311Packages.'' @ drop 11 pname
      else if prefix (ustr ''python3.12-'') pname then ustr ''python312Packages.'' @ drop 11 pname
      else if pname = ustr ''bazel-build-jaxlib'' then ustr ''python3Packages.jaxlib''
      else pname)"

text \<open>Lines 231 to 241: \<open>None\<close> when reading the answer raises.\<close>

definition get_maintainers :: "world \<Rightarrow> ustring \<Rightarrow> ustring list option" where
  "get_maintainers W a =
     (case nix_eval W a of
        Maintainers ms \<Rightarrow> Some ms
      | EvalFailed \<Rightarrow> Some []
      | EvalRaised \<Rightarrow> None)"

text \<open>
  Lines 198 to 316: the report. The body of the issue is a text template that decides
  nothing; the assignees and the title are kept.
\<close>

definition report :: "world \<Rightarrow> args \<Rightarrow> ProcessResult \<Rightarrow> failure \<Rightarrow> event list \<times> outcome" where
  "report W A build_result f =
     (let (failing_pname, failing_version) = split_pname_version (failing_pname_version f);
          failing_attr = pname_to_attr failing_pname
      in case git_log W of
        None \<Rightarrow> ([GitLog], Raised)
      | Some commit \<Rightarrow>
       (case get_maintainers W (attr A) of
          None \<Rightarrow> ([GitLog, NixEval (attr A)], Raised)
        | Some attr_maintainers \<Rightarrow>
         (case get_maintainers W failing_attr of
            None \<Rightarrow> ([GitLog, NixEval (attr A), NixEval failing_attr], Raised)
          | Some failing_attr_maintainers \<Rightarrow>
           (case config_nix W of
              None \<Rightarrow> ([GitLog, NixEval (attr A), NixEval failing_attr, ReadConfig], Raised)
            | Some nixpkgs_config \<Rightarrow>
             (case nix_info W of
                None \<Rightarrow>
                  ([GitLog, NixEval (attr A), NixEval failing_attr, ReadConfig, NixInfo], Raised)
              | Some info \<Rightarrow>
                 (let issue =
                        \<lparr>assignee =
                           join (ustr '','')
                             (filter (\<lambda>x. x \<notin> set DONT_ASSIGN) failing_attr_maintainers),
                         title = [96] @ failing_attr
                           @ [96] @ ustr '' build failure on x86_64-linux as of '' @ [96]
                           @ take 8 commit @ [96]\<rparr>
                  in ([GitLog, NixEval (attr A), NixEval failing_attr, ReadConfig, NixInfo,
                       IssueCreate issue (gh_returncode W)],
                      if gh_returncode W = 0 then SysExit (returncode build_result)
                      else Raised)))))))"

text \<open>The whole script, from line 81 on, for the result of the build of line 79.\<close>

definition canary :: "interp \<Rightarrow> world \<Rightarrow> args \<Rightarrow> ProcessResult \<Rightarrow> event list \<times> outcome" where
  "canary I W A build_result =
     (case classify I build_result of
        Inl e \<Rightarrow> ([], early_exit build_result e)
      | Inr f \<Rightarrow>
         (let pure = last_10_log_lines_pure I (excerpt f);
              lt = logs_tag I (failing_pname_version f) pure;
              dt = drv_tag I (failing_drv_hash f)
          in case find_existing_issues (search_logs W) of
               Some out \<Rightarrow> ([Sleep, Search lt (search_logs W)], out)
             | None \<Rightarrow>
                (case find_existing_issues (search_drv W) of
                   Some out \<Rightarrow>
                     ([Sleep, Search lt (search_logs W), Search dt (search_drv W)], out)
                 | None \<Rightarrow>
                    (let (evs, out) = report W A build_result f
                     in ([Sleep, Search lt (search_logs W), Search dt (search_drv W)] @ evs,
                         out)))))"

text \<open>An interpreter for concrete runs on ASCII text.\<close>

definition ascii_interp :: interp where
  "ascii_interp =
     \<lparr>uni_decimal = (\<lambda>c. False), uni_alnum = (\<lambda>c. False),
      uni_lower = (\<lambda>pre c post. [c]), str_hash = (\<lambda>s. int (length s))\<rparr>"

definition encode_ascii :: "ustring list \<Rightarrow> string list" where
  "encode_ascii ls = map (map char_of) ls"


section \<open>Example runs\<close>

definition marker_text :: ustring where
  "marker_text =
     ustr ''error: builder for '' @ [39]
     @ ustr ''/nix/store/abcdefghijklmnopqrstuvwxyz123456-foo-1.2.3.drv'' @ [39]
     @ ustr '' failed with exit code 1;''"

definition header_text :: ustring where
  "header_text = ustr ''last 10 log lines:''"

definition content_lines :: "ustring list" where
  "content_lines =
     map (\<lambda>s. ustr s @ [10])
       [''> cc -c a.c'', ''> a.c:3: error'', ''> 1 error'', ''> make: Error 1'', ''> l5'',
        ''> l6'', ''> l7'', ''> l8'', ''> l9'', ''> builder failed'']"

definition unclassifiable_lines :: "ustring list" where
  "unclassifiable_lines =
     [ustr ''error: tensorflow-gpu-2.13.0 not supported for interpreter python3.12'' @ [10]]"

definition two_marker_lines :: "ustring list" where
  "two_marker_lines = [marker_text @ [10], header_text @ [10], marker_text @ [10]]"

definition no_space_lines :: "ustring list" where
  "no_space_lines = [marker_text @ [10], ustr ''> write failed: No Space Left on Device'' @ [10]]"

definition killed_lines :: "ustring list" where
  "killed_lines = [marker_text @ [10], ustr ''> /build/run.sh: line 3: 12 Killed'' @ [10]]"

definition short_lines :: "ustring list" where
  "short_lines = [marker_text @ [10], header_text @ [10], ustr ''> builder failed'' @ [10]]"

definition shifted_lines :: "ustring list" where
  "shifted_lines =
     [ustr ''building foo'' @ [10], ustr ''> make: warning'' @ [10], marker_text @ [10],
      header_text @ [10], ustr ''> builder failed'' @ [10]]"

definition classified_run :: ProcessResult where
  "classified_run =
     \<lparr>returncode = 1, stdout = [],
      stderr = encode_ascii ([marker_text @ [10], header_text @ [10]] @ content_lines)\<rparr>"

definition short_run :: ProcessResult where
  "short_run =
     \<lparr>returncode = 1, stdout = [],
      stderr = encode_ascii short_lines\<rparr>"

definition shifted_run :: ProcessResult where
  "shifted_run =
     \<lparr>returncode = 1, stdout = [],
      stderr = encode_ascii shifted_lines\<rparr>"

definition unclassifiable_run :: ProcessResult where
  "unclassifiable_run =
     \<lparr>returncode = 2, stdout = [],
      stderr = encode_ascii unclassifiable_lines\<rparr>"

definition two_marker_run :: ProcessResult where
  "two_marker_run =
     \<lparr>returncode = 100, stdout = [],
      stderr = encode_ascii two_marker_lines\<rparr>"

definition no_space_run :: ProcessResult where
  "no_space_run =
     \<lparr>returncode = 1, stdout = [],
      stderr = encode_ascii no_space_lines\<rparr>"

definition killed_run :: ProcessResult where
  "killed_run =
     \<lparr>returncode = 137, stdout = [],
      stderr = encode_ascii killed_lines\<rparr>"

definition quiet_world :: world where
  "quiet_world =
     \<lparr>search_logs = TotalCount 0, search_drv = TotalCount 0,
      git_log = Some (ustr ''0123456789abcdef0123456789abcdef01234567''),
      nix_eval = (\<lambda>a. Maintainers [ustr ''alice'', ustr ''dotlambda'']),
      config_nix = Some (ustr ''{ allowUnfree = true; }''),
      nix_info = Some (ustr ''system: x86_64-linux''),
      gh_returncode = 0\<rparr>"

definition logs_known_world :: world where
  "logs_known_world = quiet_world\<lparr>search_logs := TotalCount 3\<rparr>"

definition drv_known_world :: world where
  "drv_known_world = quiet_world\<lparr>search_drv := TotalCount 1\<rparr>"

definition example_args :: args where
  "example_args = \<lparr>attr = ustr ''foo'', cc = []\<rparr>"

definition example_failure :: failure where
  "example_failure =
     \<lparr>first_error_line_ix = 0,
      failing_drv_hash = ustr ''abcdefghijklmnopqrstuvwxyz123456'',
      failing_pname_version = ustr ''foo-1.2.3'',
      excerpt = content_lines\<rparr>"

definition example_issue :: gh_issue where
  "example_issue =
     \<lparr>assignee = ustr ''alice'',
      title = [96] @ ustr ''foo'' @ [96] @ ustr '' build failure on x86_64-linux as of ''
              @ [96] @ ustr ''01234567'' @ [96]\<rparr>"

definition example_report :: "event list" where
  "example_report =
     [GitLog, NixEval (ustr ''foo''), NixEval (ustr ''foo''), ReadConfig, NixInfo,
      IssueCreate example_issue 0]"

text \<open>Two excerpts that differ in the hash of a store path only, and an excerpt with
  progress lines but without durations, store paths and versions.\<close>

definition store_line :: "ustring \<Rightarrow> ustring" where
  "store_line h = ustr ''> ld: /nix/store/'' @ h @ ustr ''-gcc: no'' @ [10]"

definition hash_a :: ustring where
  "hash_a = ustr ''1a2sbbbbbbbbbbbbbbbbbbbbbbbbbbbb''"

definition hash_b :: ustring where
  "hash_b = ustr ''ccccbbbbbbbbbbbbbbbbbbbbbbbbbbbb''"

text \<open>An excerpt without a dot, a colon or a slash, hence without a decimal number of
  seconds, a time, a store path or a version.\<close>

definition size_excerpt :: "ustring list" where
  "size_excerpt = [ustr ''got: 5x1a2s6size'' @ [10]]"

definition progress_excerpt :: "ustring list" where
  "progress_excerpt =
     map (\<lambda>s. ustr s @ [10])
       [''> INFO: Analyzed target'', ''> [1,234 / 5,678] Compiling foo.cc'', ''> error: boom'']"

section \<open>Properties\<close>

lemma split_char_nonempty: "split_char sep s \<noteq> []"
  by (induction s) (auto simp: Let_def)

lemma split_char_no_sep: "sep \<notin> set s \<Longrightarrow> split_char sep s = [s]"
  by (induction s) (auto simp: Let_def)

lemma split_char_append:
  "split_char sep (a @ sep # b) = split_char sep a @ split_char sep b"
proof (induction a)
  case Nil
  show ?case by simp
next
  case (Cons c a)
  have ne: "split_char sep a \<noteq> []" by (rule split_char_nonempty)
  show ?case
    using Cons ne by (cases "split_char sep a") (auto simp: Let_def)
qed

lemma join_split_char: "join [sep] (split_char sep s) = s"
proof (induction s)
  case Nil
  show ?case by simp
next
  case (Cons c s)
  obtain p ps where r: "split_char sep s = p # ps"
    using split_char_nonempty[of sep s] by (cases "split_char sep s") auto
  show ?case using Cons r by (cases ps) (auto simp: Let_def)
qed

lemma split_pname_version_decomp:
  assumes "hyphen \<notin> set b"
  shows "split_pname_version (a @ hyphen # b) = (a, b)"
  using assms split_char_nonempty[of hyphen a]
  by (simp add: split_pname_version_def split_char_append split_char_no_sep join_split_char)

text \<open>
  C10: the version is the text after the last hyphen and the name the text before
  it, so that name, hyphen and version give the input back; without a hyphen the name is
  empty and the version is the whole input.
\<close>

theorem split_pname_version_last_hyphen:
  "(hyphen \<notin> set pv \<longrightarrow> split_pname_version pv = ([], pv)) \<and>
   (\<forall>name version. pv = name @ hyphen # version \<and> hyphen \<notin> set version
        \<longrightarrow> split_pname_version pv = (name, version)) \<and>
   (hyphen \<in> set pv \<longrightarrow>
        fst (split_pname_version pv) @ hyphen # snd (split_pname_version pv) = pv \<and>
        hyphen \<notin> set (snd (split_pname_version pv)))"
proof (intro conjI impI allI)
  assume "hyphen \<notin> set pv"
  then show "split_pname_version pv = ([], pv)"
    by (simp add: split_pname_version_def split_char_no_sep)
next
  fix name version
  assume "pv = name @ hyphen # version \<and> hyphen \<notin> set version"
  then show "split_pname_version pv = (name, version)"
    by (simp add: split_pname_version_decomp)
next
  assume "hyphen \<in> set pv"
  then obtain a b where d: "pv = a @ hyphen # b" "hyphen \<notin> set b"
    by (meson split_list_last)
  then have e: "split_pname_version pv = (a, b)"
    by (simp add: split_pname_version_decomp)
  show "fst (split_pname_version pv) @ hyphen # snd (split_pname_version pv) = pv"
    using d e by simp
  show "hyphen \<notin> set (snd (split_pname_version pv))"
    using d e by simp
qed

theorem split_pname_version_last_hyphen_witness:
  "hyphen \<in> set (ustr ''foo-bar-1.2.3'') \<and>
   ustr ''foo-bar-1.2.3'' = ustr ''foo-bar'' @ hyphen # ustr ''1.2.3'' \<and>
   hyphen \<notin> set (ustr ''1.2.3'') \<and>
   split_pname_version (ustr ''foo-bar-1.2.3'') = (ustr ''foo-bar'', ustr ''1.2.3'') \<and>
   hyphen \<notin> set (ustr ''foo'') \<and>
   split_pname_version (ustr ''foo'') = ([], ustr ''foo'')"
proof -
  have a: "hyphen \<in> set (ustr ''foo-bar-1.2.3'')"
    by (simp add: ustr_def hyphen_def)
  have b: "ustr ''foo-bar-1.2.3'' = ustr ''foo-bar'' @ hyphen # ustr ''1.2.3'' \<and>
           hyphen \<notin> set (ustr ''1.2.3'')"
    by (simp add: ustr_def hyphen_def)
  have c: "hyphen \<notin> set (ustr ''foo'')"
    by (simp add: ustr_def hyphen_def)
  have d: "split_pname_version (ustr ''foo-bar-1.2.3'') = (ustr ''foo-bar'', ustr ''1.2.3'')"
    using split_pname_version_last_hyphen [of "ustr ''foo-bar-1.2.3''"] b by blast
  have e: "split_pname_version (ustr ''foo'') = ([], ustr ''foo'')"
    using split_pname_version_last_hyphen [of "ustr ''foo''"] c by blast
  show ?thesis using a b c d e by blast
qed

lemma length_map_filter_enumerate:
  "length (List.map_filter (\<lambda>(ix, line). map_option (g ix line) (h line)) (enumerate n xs))
   = length (filter (\<lambda>line. h line \<noteq> None) xs)"
  by (induction xs arbitrary: n) (auto simp: List.map_filter_def)

lemma length_first_error_lines:
  "length (first_error_lines I lines) =
   length (filter (\<lambda>line. re_match I first_error_line_re line \<noteq> None) lines)"
  unfolding first_error_lines_def by (rule length_map_filter_enumerate)

lemma classify_no_error_line:
  assumes "returncode pr \<noteq> 0" "stderr_utf8 pr = Some lines"
    "\<not> sublist (ustr ''no space left on device'') (py_lower I (concat lines))"
    "\<not> sublist (ustr ''Killed'') (concat lines)"
    "length (first_error_lines I lines) \<noteq> 1"
  shows "classify I pr = Inl NoErrorLine"
proof (cases "first_error_lines I lines")
  case Nil
  with assms show ?thesis by (simp add: classify_def)
next
  case (Cons x xs)
  with assms(5) obtain y ys where "xs = y # ys" by (cases xs) auto
  with Cons assms show ?thesis by (simp add: classify_def split: prod.splits)
qed

lemma canary_early: "classify I pr = Inl e \<Longrightarrow> canary I W A pr = ([], early_exit pr e)"
  by (simp add: canary_def)

text \<open>
  C3: a failed build whose decoded error lines hold no environmental marker and
  zero, or two or more, lines matching the failure pattern ends at ``Failed to find error
  line'' with \<open>sys.exit\<close> of the return code of the build, before any effect.
\<close>

theorem no_single_error_line_propagates_returncode:
  assumes "returncode pr \<noteq> 0" and "stderr_utf8 pr = Some lines"
    and "\<not> sublist (ustr ''no space left on device'') (py_lower I (concat lines))"
    and "\<not> sublist (ustr ''Killed'') (concat lines)"
    and "length (filter (\<lambda>line. re_match I first_error_line_re line \<noteq> None) lines) = 0
         \<or> 2 \<le> length (filter (\<lambda>line. re_match I first_error_line_re line \<noteq> None) lines)"
  shows "classify I pr = Inl NoErrorLine \<and> canary I W A pr = ([], SysExit (returncode pr))"
proof -
  have "length (first_error_lines I lines) \<noteq> 1"
    using assms(5) unfolding length_first_error_lines by linarith
  then have c: "classify I pr = Inl NoErrorLine"
    using assms(1-4) by (rule classify_no_error_line[rotated -1])
  then show ?thesis by (simp add: canary_early early_exit_def)
qed

subsection \<open>Lower case\<close>

lemma lower_from_append:
  "lower_from I pre (a @ b) post = lower_from I pre a (b @ post) @ lower_from I (pre @ a) b post"
  by (induction a arbitrary: pre) auto

lemma lower_from_ascii:
  "\<forall>c\<in>set u. c < 128 \<Longrightarrow> lower_from I pre u post = map ascii_lower u"
  by (induction u arbitrary: pre) auto

lemma ascii_lower_ascii: "ascii_lower c < 128 \<Longrightarrow> c < 128"
  by (auto simp: ascii_lower_def split: if_splits)

lemma py_lower_contains:
  assumes "sublist u s" "map ascii_lower u = phrase" "\<forall>c\<in>set phrase. c < 128"
  shows "sublist phrase (py_lower I s)"
proof -
  from assms(1) obtain a b where s: "s = a @ u @ b" by (auto simp: sublist_def)
  have "\<forall>c\<in>set u. c < 128"
    using assms(2,3) ascii_lower_ascii by auto
  then have "lower_from I a u b = phrase"
    using assms(2) by (simp add: lower_from_ascii)
  then have "py_lower I s = lower_from I [] a (u @ b) @ phrase @ lower_from I (a @ u) b []"
    by (simp add: py_lower_def s lower_from_append)
  then show ?thesis by (auto simp: sublist_def)
qed

lemma nospace_ascii: "\<forall>c\<in>set (ustr ''no space left on device''). c < 128"
  by (simp add: ustr_def)

text \<open>
  C4: when the decoded error text holds ``no space left on device'' in any letter
  case, or ``Killed'', the run ends with \<open>sys.exit(0)\<close> whatever the return code of the
  build, before any effect.
\<close>

theorem environmental_failure_exits_zero:
  assumes "stderr_utf8 pr = Some lines"
    and "sublist (ustr ''no space left on device'') (py_lower I (concat lines))
         \<or> (\<exists>u. sublist u (concat lines) \<and> map ascii_lower u = ustr ''no space left on device'')
         \<or> sublist (ustr ''Killed'') (concat lines)"
  shows "canary I W A pr = ([], SysExit 0)"
proof -
  have "sublist (ustr ''no space left on device'') (py_lower I (concat lines))
        \<or> sublist (ustr ''Killed'') (concat lines)"
    using assms(2) py_lower_contains[OF _ _ nospace_ascii] by blast
  then have "classify I pr = Inl BuildSucceeded \<or> classify I pr = Inl NoSpaceLeft
             \<or> classify I pr = Inl Killed"
    using assms(1) by (auto simp: classify_def)
  then show ?thesis by (auto simp: canary_early early_exit_def)
qed

subsection \<open>The report and the searches\<close>

lemma report_no_search: "Search t r \<notin> set (fst (report W A pr f))"
  by (auto simp: report_def Let_def split: prod.splits option.splits)

lemma report_issue:
  "IssueCreate g rc \<in> set (fst (report W A pr f)) \<Longrightarrow>
   rc = gh_returncode W \<and>
   snd (report W A pr f) = (if rc = 0 then SysExit (returncode pr) else Raised)"
  by (auto simp: report_def Let_def split: prod.splits option.splits)

lemma classify_Inr_returncode: "classify I pr = Inr f \<Longrightarrow> returncode pr \<noteq> 0"
  by (auto simp: classify_def split: if_splits)

lemma find_existing_issues_Some:
  "find_existing_issues r = Some out \<Longrightarrow>
   (r = RequestFailed \<and> out = Raised) \<or> (\<exists>n. r = TotalCount n \<and> 0 < n \<and> out = SysExit 0)"
  by (auto simp: find_existing_issues_def split: response.splits if_splits)

lemma find_existing_issues_None:
  "find_existing_issues r = None \<Longrightarrow> \<exists>n. r = TotalCount n \<and> n \<le> 0"
  by (auto simp: find_existing_issues_def split: response.splits if_splits)

text \<open>
  C1, as amended: a run whose trace holds a successful \<open>gh issue create\<close> has
  classified the failure, has had a count of at most zero from both searches, and ends with
  \<open>sys.exit\<close> of the return code of the build, which is not zero.
\<close>

theorem report_exits_with_build_returncode:
  assumes "IssueCreate g 0 \<in> set (fst (canary I W A pr))"
  shows "snd (canary I W A pr) = SysExit (returncode pr) \<and> returncode pr \<noteq> 0 \<and>
         (\<exists>f lt dt n m. classify I pr = Inr f \<and> n \<le> 0 \<and> m \<le> 0 \<and>
            take 3 (fst (canary I W A pr)) = [Sleep, Search lt (TotalCount n), Search dt (TotalCount m)])"
proof (cases "classify I pr")
  case (Inl e)
  with assms show ?thesis by (simp add: canary_early)
next
  case (Inr f)
  note rc = classify_Inr_returncode[OF Inr]
  show ?thesis
  proof (cases "find_existing_issues (search_logs W)")
    case (Some out)
    with assms Inr show ?thesis by (simp add: canary_def Let_def)
  next
    case None
    note n1 = None
    show ?thesis
    proof (cases "find_existing_issues (search_drv W)")
      case (Some out)
      with assms Inr n1 show ?thesis by (simp add: canary_def Let_def)
    next
      case None
      obtain evs out where r: "report W A pr f = (evs, out)" by (cases "report W A pr f")
      have c: "canary I W A pr =
           ([Sleep, Search (logs_tag I (failing_pname_version f) (last_10_log_lines_pure I (excerpt f))) (search_logs W),
             Search (drv_tag I (failing_drv_hash f)) (search_drv W)] @ evs, out)"
        using Inr n1 None r by (simp add: canary_def Let_def)
      from assms c have "IssueCreate g 0 \<in> set (fst (report W A pr f))"
        using r by simp
      from report_issue[OF this] r have o: "out = SysExit (returncode pr)" by simp
      from find_existing_issues_None[OF n1] obtain n where n: "search_logs W = TotalCount n" "n \<le> 0" by blast
      from find_existing_issues_None[OF None] obtain m where m: "search_drv W = TotalCount m" "m \<le> 0" by blast
      show ?thesis using c o rc n m Inr by simp
    qed
  qed
qed

text \<open>
  C2: when a search of the run answers with a count greater than zero, for the logs
  tag or for the derivation tag, the run is a classified one, it ends with \<open>sys.exit(0)\<close>
  and no issue is created.
\<close>

theorem known_issue_exits_zero:
  assumes "Search t (TotalCount n) \<in> set (fst (canary I W A pr))" and "0 < n"
  shows "snd (canary I W A pr) = SysExit 0 \<and>
         (\<forall>g rc. IssueCreate g rc \<notin> set (fst (canary I W A pr))) \<and>
         (\<exists>f. classify I pr = Inr f)"
proof (cases "classify I pr")
  case (Inl e)
  with assms show ?thesis by (simp add: canary_early)
next
  case (Inr f)
  show ?thesis
  proof (cases "find_existing_issues (search_logs W)")
    case (Some out)
    with assms Inr show ?thesis
      by (auto simp: canary_def Let_def dest!: find_existing_issues_Some)
  next
    case None
    note n1 = None
    from find_existing_issues_None[OF n1] obtain k where k: "search_logs W = TotalCount k" "k \<le> 0" by blast
    show ?thesis
    proof (cases "find_existing_issues (search_drv W)")
      case (Some out)
      with assms Inr n1 k show ?thesis
        by (auto simp: canary_def Let_def dest!: find_existing_issues_Some)
    next
      case None
      from find_existing_issues_None[OF None] obtain m where m: "search_drv W = TotalCount m" "m \<le> 0" by blast
      obtain evs out where r: "report W A pr f = (evs, out)" by (cases "report W A pr f")
      have "Search t (TotalCount n) \<notin> set evs"
        using report_no_search[of t "TotalCount n" W A pr f] r by simp
      with assms Inr n1 None k m r show ?thesis
        by (auto simp: canary_def Let_def)
    qed
  qed
qed

lemma map_filter_append: "List.map_filter f (xs @ ys) = List.map_filter f xs @ List.map_filter f ys"
  by (simp add: List.map_filter_def)

lemma map_filter_enumerate_mem:
  "(ix, line, ns) \<in> set (List.map_filter (\<lambda>(ix, line). map_option (\<lambda>ns. (ix, line, ns)) (h line)) (enumerate n xs))
   \<Longrightarrow> n \<le> ix \<and> ix < n + length xs \<and> xs ! (ix - n) = line \<and> h line = Some ns"
  by (auto simp: List.map_filter_def in_set_enumerate_eq)

lemma first_error_lines_single:
  assumes "first_error_lines I lines = [(ix, line, ns)]"
  shows "ix < length lines \<and> lines ! ix = line \<and> re_match I first_error_line_re line = Some ns"
proof -
  have "(ix, line, ns) \<in> set (first_error_lines I lines)" using assms by simp
  then show ?thesis
    unfolding first_error_lines_def
    by (auto dest!: map_filter_enumerate_mem)
qed

lemma map_filter_enumerate_none:
  "\<forall>l\<in>set xs. h l = None \<Longrightarrow>
   List.map_filter (\<lambda>(ix, line). map_option (g ix line) (h line)) (enumerate n xs) = []"
  by (induction xs arbitrary: n) (auto simp: List.map_filter_def)

lemma first_error_lines_unique:
  assumes "\<forall>l\<in>set pre. re_match I first_error_line_re l = None"
    and "\<forall>l\<in>set rest. re_match I first_error_line_re l = None"
    and "re_match I first_error_line_re m = Some ns"
  shows "first_error_lines I (pre @ m # rest) = [(length pre, m, ns)]"
  using assms
  unfolding first_error_lines_def
  by (simp add: enumerate_append_eq map_filter_append map_filter_enumerate_none
        List.map_filter_simps)

lemma map_filter_enumerate_complete:
  assumes "i < length xs" and "h (xs ! i) = Some ns"
  shows "(n + i, xs ! i, ns)
         \<in> set (List.map_filter (\<lambda>(ix, line). map_option (\<lambda>ns. (ix, line, ns)) (h line))
                  (enumerate n xs))"
proof -
  have "(n + i, xs ! i) \<in> set (enumerate n xs)"
    using assms(1) by (simp add: in_set_enumerate_eq)
  then show ?thesis
    using assms(2) by (force simp: List.map_filter_def)
qed

lemma first_error_lines_only:
  assumes "first_error_lines I lines = [(ix, line, ns)]"
    and "i < length lines" and "re_match I first_error_line_re (lines ! i) \<noteq> None"
  shows "i = ix"
proof -
  from assms(3) obtain ns' where m: "re_match I first_error_line_re (lines ! i) = Some ns'"
    by blast
  from map_filter_enumerate_complete[OF assms(2), of "re_match I first_error_line_re" ns' 0] m
  have "(i, lines ! i, ns') \<in> set (first_error_lines I lines)"
    by (simp add: first_error_lines_def)
  then show ?thesis using assms(1) by simp
qed

lemma classify_Inr:
  assumes "classify I pr = Inr f"
  shows "\<exists>lines line ns. stderr_utf8 pr = Some lines \<and>
           first_error_lines I lines = [(first_error_line_ix f, line, ns)] \<and>
           failing_drv_hash f = group1 ns line \<and> failing_pname_version f = group2 ns line \<and>
           excerpt f = last_10_log_lines lines (first_error_line_ix f)"
  using assms
  by (auto simp: classify_def split: if_splits option.splits list.splits prod.splits)

text \<open>
  C6, as amended: in a classified run the recorded index is that of the one decoded
  line matching the failure pattern, and the excerpt is the slice of the decoded lines from
  two lines after that line up to twelve lines after it, cut at the end of the buffer: it
  has ten lines exactly when the buffer holds twelve lines from the matching line on, and
  fewer otherwise.
\<close>

theorem excerpt_is_clipped_slice:
  assumes "classify I pr = Inr f"
  shows "\<exists>lines. stderr_utf8 pr = Some lines \<and>
           first_error_line_ix f < length lines \<and>
           re_match I first_error_line_re (lines ! first_error_line_ix f) \<noteq> None \<and>
           (\<forall>i<length lines. re_match I first_error_line_re (lines ! i) \<noteq> None
              \<longrightarrow> i = first_error_line_ix f) \<and>
           excerpt f = take 10 (drop (first_error_line_ix f + 2) lines) \<and>
           length (excerpt f) = min 10 (length lines - (first_error_line_ix f + 2)) \<and>
           (length (excerpt f) = 10 \<longleftrightarrow> first_error_line_ix f + 12 \<le> length lines)"
proof -
  from classify_Inr[OF assms] obtain lines line ns where
    l: "stderr_utf8 pr = Some lines"
    and f: "first_error_lines I lines = [(first_error_line_ix f, line, ns)]"
    and e: "excerpt f = last_10_log_lines lines (first_error_line_ix f)"
    by blast
  from first_error_lines_single[OF f]
  have ix: "first_error_line_ix f < length lines"
    and m: "re_match I first_error_line_re (lines ! first_error_line_ix f) \<noteq> None"
    by simp_all
  have u: "\<forall>i<length lines. re_match I first_error_line_re (lines ! i) \<noteq> None
              \<longrightarrow> i = first_error_line_ix f"
    using first_error_lines_only[OF f] by blast
  have e': "excerpt f = take 10 (drop (first_error_line_ix f + 2) lines)"
    using e by (simp add: last_10_log_lines_def)
  have n: "length (excerpt f) = min 10 (length lines - (first_error_line_ix f + 2))"
    using e' by simp
  have t: "length (excerpt f) = 10 \<longleftrightarrow> first_error_line_ix f + 12 \<le> length lines"
    using n by (auto simp: min_def)
  show ?thesis using l ix m u e' n t by blast
qed

lemma marker_match:
  "re_match I first_error_line_re (marker_text @ 10 # r) = Some (replicate 31 1 @ [32, 1, 9] @ replicate 30 1)"
  by code_simp

lemma marker_match_eof:
  "re_match I first_error_line_re marker_text = Some (replicate 31 1 @ [32, 1, 9] @ replicate 30 1)"
  by code_simp

lemma header_no_match: "re_match I first_error_line_re (header_text @ r) = None"
  by code_simp

lemma marker_group1:
  "group1 (replicate 31 1 @ [32, 1, 9] @ replicate 30 1) (marker_text @ r) = ustr ''abcdefghijklmnopqrstuvwxyz123456''"
  by code_simp

lemma marker_group2:
  "group2 (replicate 31 1 @ [32, 1, 9] @ replicate 30 1) (marker_text @ r) = ustr ''foo-1.2.3''"
  by code_simp

lemma classify_marker_general:
  assumes rc: "returncode pr \<noteq> 0"
    and eol: "eol = [] \<or> eol = [10]"
    and dec: "stderr_utf8 pr = Some (pre @ (marker_text @ eol) # rest)"
    and others: "\<forall>l\<in>set (pre @ rest). re_match I first_error_line_re l = None"
    and ns: "\<not> sublist (ustr ''no space left on device'')
                 (py_lower I (concat (pre @ (marker_text @ eol) # rest)))"
    and nk: "\<not> sublist (ustr ''Killed'') (concat (pre @ (marker_text @ eol) # rest))"
  shows "classify I pr =
         Inr \<lparr>first_error_line_ix = length pre,
              failing_drv_hash = ustr ''abcdefghijklmnopqrstuvwxyz123456'',
              failing_pname_version = ustr ''foo-1.2.3'',
              excerpt = take 10 (drop 1 rest)\<rparr>"
proof -
  let ?m = "marker_text @ eol"
  let ?ns = "replicate 31 1 @ [32, 1, 9] @ replicate 30 (1::nat)"
  have m: "re_match I first_error_line_re ?m = Some ?ns"
    using eol marker_match[of I "[]"] marker_match_eof[of I] by auto
  have rest: "\<forall>l\<in>set rest. re_match I first_error_line_re l = None"
    using others by auto
  have pre: "\<forall>l\<in>set pre. re_match I first_error_line_re l = None"
    using others by auto
  have fel: "first_error_lines I (pre @ ?m # rest) = [(length pre, ?m, ?ns)]"
    by (rule first_error_lines_unique[OF pre rest m])
  have g1: "group1 ?ns ?m = ustr ''abcdefghijklmnopqrstuvwxyz123456''" by (rule marker_group1)
  have g2: "group2 ?ns ?m = ustr ''foo-1.2.3''" by (rule marker_group2)
  have ex: "last_10_log_lines (pre @ ?m # rest) (length pre) = take 10 (drop 1 rest)"
    by (simp add: last_10_log_lines_def)
  show ?thesis
    using rc dec ns nk fel g1 g2 ex
    by (simp add: classify_def)
qed

lemma classify_marker_buffer:
  assumes rc: "returncode pr \<noteq> 0"
    and eol: "eol = [] \<or> eol = [10]"
    and dec: "stderr_utf8 pr = Some (pre @ [marker_text @ eol, header_text @ eol'] @ content @ post)"
    and len: "length content = 10"
    and others: "\<forall>l\<in>set (pre @ content @ post). re_match I first_error_line_re l = None"
    and ns: "\<not> sublist (ustr ''no space left on device'')
                 (py_lower I (concat (pre @ [marker_text @ eol, header_text @ eol'] @ content @ post)))"
    and nk: "\<not> sublist (ustr ''Killed'')
                 (concat (pre @ [marker_text @ eol, header_text @ eol'] @ content @ post))"
  shows "classify I pr =
         Inr \<lparr>first_error_line_ix = length pre,
              failing_drv_hash = ustr ''abcdefghijklmnopqrstuvwxyz123456'',
              failing_pname_version = ustr ''foo-1.2.3'',
              excerpt = content\<rparr>"
proof -
  have o: "\<forall>l\<in>set (pre @ (header_text @ eol') # content @ post).
             re_match I first_error_line_re l = None"
    using others header_no_match by auto
  from classify_marker_general[OF rc eol _ o] dec ns nk len
  show ?thesis by simp
qed

text \<open>
  C5: a buffer whose only matching line is the line of the example, followed by the
  ``last 10 log lines:'' line and ten lines, is classified with the package name and
  version \<open>foo-1.2.3\<close>, the hash of the example and the ten lines as the excerpt.
\<close>

theorem classify_example_buffer:
  assumes rc: "returncode pr \<noteq> 0"
    and eol: "eol = [] \<or> eol = [10]"
    and dec: "stderr_utf8 pr = Some (pre @ [marker_text @ eol, header_text @ eol'] @ content @ post)"
    and len: "length content = 10"
    and others: "\<forall>l\<in>set (pre @ content @ post). re_match I first_error_line_re l = None"
    and ns: "\<not> sublist (ustr ''no space left on device'')
                 (py_lower I (concat (pre @ [marker_text @ eol, header_text @ eol'] @ content @ post)))"
    and nk: "\<not> sublist (ustr ''Killed'')
                 (concat (pre @ [marker_text @ eol, header_text @ eol'] @ content @ post))"
  shows "classify I pr =
         Inr \<lparr>first_error_line_ix = length pre,
              failing_drv_hash = ustr ''abcdefghijklmnopqrstuvwxyz123456'',
              failing_pname_version = ustr ''foo-1.2.3'',
              excerpt = content\<rparr>"
  by (rule classify_marker_buffer[OF assms])

lemma decode_ascii: "\<forall>c\<in>set s. c < 128 \<Longrightarrow> decode_utf8 (map char_of s) = Some s"
proof (induction s)
  case Nil
  show ?case by simp
next
  case (Cons c s)
  then have c: "c < 128" by simp
  then have "of_char (char_of c :: char) = c" by (simp add: of_char_of)
  with Cons c show ?case by (simp add: Let_def)
qed

lemma those_decode_ascii:
  "\<forall>l\<in>set ls. \<forall>c\<in>set l. c < 128 \<Longrightarrow> those (map decode_utf8 (encode_ascii ls)) = Some ls"
  by (induction ls) (auto simp: encode_ascii_def decode_ascii)

lemma py_lower_ascii: "\<forall>c\<in>set s. c < 128 \<Longrightarrow> py_lower I s = map ascii_lower s"
  by (simp add: py_lower_def lower_from_ascii)

lemma stderr_utf8_ascii:
  assumes "stderr pr = encode_ascii ls" and "\<forall>l\<in>set ls. \<forall>c\<in>set l. c < 128"
  shows "stderr_utf8 pr = Some ls"
  using assms by (simp add: stderr_utf8_def those_decode_ascii)

lemma no_space_ascii:
  assumes "\<forall>c\<in>set s. c < 128"
  shows "sublist (ustr ''no space left on device'') (py_lower I s)
         \<longleftrightarrow> sublist (ustr ''no space left on device'') (map ascii_lower s)"
  using assms by (simp add: py_lower_ascii)

subsection \<open>The example runs\<close>

lemma classified_run_ascii:
  "\<forall>l\<in>set ([marker_text @ [10], header_text @ [10]] @ content_lines). \<forall>c\<in>set l. c < 128"
  by code_simp

lemma classified_run_text_ascii:
  "\<forall>c\<in>set (concat ([marker_text @ [10], header_text @ [10]] @ content_lines)). c < 128"
  by code_simp

lemma classified_run_stderr:
  "stderr_utf8 classified_run = Some ([marker_text @ [10], header_text @ [10]] @ content_lines)"
  by (rule stderr_utf8_ascii[OF _ classified_run_ascii]) (simp add: classified_run_def)

lemma classified_run_no_space:
  "\<not> sublist (ustr ''no space left on device'')
       (py_lower I (concat ([marker_text @ [10], header_text @ [10]] @ content_lines)))"
  unfolding no_space_ascii[OF classified_run_text_ascii] by code_simp

lemma classified_run_not_killed:
  "\<not> sublist (ustr ''Killed'') (concat ([marker_text @ [10], header_text @ [10]] @ content_lines))"
  by code_simp

lemma content_lines_no_match:
  "\<forall>l\<in>set content_lines. re_match I first_error_line_re l = None"
  by code_simp

lemma length_content_lines: "length content_lines = 10"
  by code_simp

lemma classified_run_returncode: "returncode classified_run = 1"
  by (simp add: classified_run_def)


lemma classified_run_classify: "classify I classified_run = Inr example_failure"
proof -
  have rc: "returncode classified_run \<noteq> 0" by (simp add: classified_run_def)
  have eol: "[10::nat] = [] \<or> [10::nat] = [10]" by simp
  have dec: "stderr_utf8 classified_run
             = Some ([] @ [marker_text @ [10], header_text @ [10]] @ content_lines @ [])"
    using classified_run_stderr by simp
  have others: "\<forall>l\<in>set ([] @ content_lines @ []). re_match I first_error_line_re l = None"
    using content_lines_no_match by simp
  have ns: "\<not> sublist (ustr ''no space left on device'')
       (py_lower I (concat ([] @ [marker_text @ [10], header_text @ [10]] @ content_lines @ [])))"
    using classified_run_no_space[of I] by simp
  have nk: "\<not> sublist (ustr ''Killed'')
       (concat ([] @ [marker_text @ [10], header_text @ [10]] @ content_lines @ []))"
    using classified_run_not_killed by simp
  from classify_marker_buffer[OF rc eol dec length_content_lines others ns nk]
  show ?thesis by (simp add: example_failure_def)
qed

lemma example_report_eval:
  "report quiet_world example_args classified_run example_failure = (example_report, SysExit 1)"
  by code_simp

lemma example_report_logs_known:
  "search_logs logs_known_world = TotalCount 3 \<and> search_drv logs_known_world = TotalCount 0"
  by (simp add: logs_known_world_def quiet_world_def)

lemma example_report_drv_known:
  "search_logs drv_known_world = TotalCount 0 \<and> search_drv drv_known_world = TotalCount 1"
  by (simp add: drv_known_world_def quiet_world_def)

lemma canary_classified_quiet:
  "canary I quiet_world example_args classified_run =
     ([Sleep,
       Search (logs_tag I (ustr ''foo-1.2.3'') (last_10_log_lines_pure I content_lines)) (TotalCount 0),
       Search (drv_tag I (ustr ''abcdefghijklmnopqrstuvwxyz123456'')) (TotalCount 0)]
      @ example_report, SysExit 1)"
proof -
  have s: "search_logs quiet_world = TotalCount 0" "search_drv quiet_world = TotalCount 0"
    by (simp_all add: quiet_world_def)
  show ?thesis
    by (simp add: canary_def classified_run_classify s find_existing_issues_def
          example_report_eval Let_def)
       (simp add: example_failure_def)
qed

lemma canary_classified_logs_known:
  "canary I logs_known_world example_args classified_run =
     ([Sleep,
       Search (logs_tag I (ustr ''foo-1.2.3'') (last_10_log_lines_pure I content_lines)) (TotalCount 3)],
      SysExit 0)"
  by (simp add: canary_def classified_run_classify example_report_logs_known
        find_existing_issues_def Let_def)
     (simp add: example_failure_def)

lemma canary_classified_drv_known:
  "canary I drv_known_world example_args classified_run =
     ([Sleep,
       Search (logs_tag I (ustr ''foo-1.2.3'') (last_10_log_lines_pure I content_lines)) (TotalCount 0),
       Search (drv_tag I (ustr ''abcdefghijklmnopqrstuvwxyz123456'')) (TotalCount 1)],
      SysExit 0)"
  by (simp add: canary_def classified_run_classify example_report_drv_known
        find_existing_issues_def Let_def)
     (simp add: example_failure_def)

theorem report_exit_zero_counterexample:
  "canary ascii_interp quiet_world example_args classified_run =
     ([Sleep,
       Search (logs_tag ascii_interp (ustr ''foo-1.2.3'')
                 (last_10_log_lines_pure ascii_interp content_lines)) (TotalCount 0),
       Search (drv_tag ascii_interp (ustr ''abcdefghijklmnopqrstuvwxyz123456'')) (TotalCount 0),
       GitLog, NixEval (ustr ''foo''), NixEval (ustr ''foo''), ReadConfig, NixInfo,
       IssueCreate example_issue 0],
      SysExit 1)
   \<and> SysExit 1 \<noteq> SysExit 0"
  by (simp add: canary_classified_quiet example_report_def)

theorem report_exits_with_build_returncode_witness:
  "IssueCreate example_issue 0 \<in> set (fst (canary ascii_interp quiet_world example_args classified_run))
   \<and> snd (canary ascii_interp quiet_world example_args classified_run) = SysExit (returncode classified_run)
   \<and> returncode classified_run = 1"
proof -
  have h: "IssueCreate example_issue 0 \<in> set (fst (canary ascii_interp quiet_world example_args classified_run))"
    by (simp add: canary_classified_quiet example_report_def)
  from report_exits_with_build_returncode[OF h] h classified_run_returncode show ?thesis by blast
qed

theorem known_issue_exits_zero_witness:
  "Search (logs_tag ascii_interp (ustr ''foo-1.2.3'') (last_10_log_lines_pure ascii_interp content_lines))
      (TotalCount 3)
     \<in> set (fst (canary ascii_interp logs_known_world example_args classified_run))
   \<and> snd (canary ascii_interp logs_known_world example_args classified_run) = SysExit 0
   \<and> Search (drv_tag ascii_interp (ustr ''abcdefghijklmnopqrstuvwxyz123456'')) (TotalCount 1)
     \<in> set (fst (canary ascii_interp drv_known_world example_args classified_run))
   \<and> snd (canary ascii_interp drv_known_world example_args classified_run) = SysExit 0"
proof -
  have h1: "Search (logs_tag ascii_interp (ustr ''foo-1.2.3'') (last_10_log_lines_pure ascii_interp content_lines))
      (TotalCount 3)
     \<in> set (fst (canary ascii_interp logs_known_world example_args classified_run))"
    by (simp add: canary_classified_logs_known)
  have h2: "Search (drv_tag ascii_interp (ustr ''abcdefghijklmnopqrstuvwxyz123456'')) (TotalCount 1)
     \<in> set (fst (canary ascii_interp drv_known_world example_args classified_run))"
    by (simp add: canary_classified_drv_known)
  have p1: "(0::int) < 3" and p2: "(0::int) < 1" by simp_all
  from known_issue_exits_zero[OF h1 p1] known_issue_exits_zero[OF h2 p2] h1 h2 show ?thesis by blast
qed

theorem classify_example_buffer_witness:
  "returncode classified_run = 1
   \<and> stderr_utf8 classified_run = Some ([marker_text @ [10], header_text @ [10]] @ content_lines)
   \<and> length content_lines = 10
   \<and> classify ascii_interp classified_run =
       Inr \<lparr>first_error_line_ix = 0,
            failing_drv_hash = ustr ''abcdefghijklmnopqrstuvwxyz123456'',
            failing_pname_version = ustr ''foo-1.2.3'',
            excerpt = content_lines\<rparr>"
proof -
  have rc: "returncode classified_run \<noteq> 0" by (simp add: classified_run_def)
  have eol: "[10::nat] = [] \<or> [10::nat] = [10]" by simp
  have dec: "stderr_utf8 classified_run
             = Some ([] @ [marker_text @ [10], header_text @ [10]] @ content_lines @ [])"
    using classified_run_stderr by simp
  have others: "\<forall>l\<in>set ([] @ content_lines @ []). re_match ascii_interp first_error_line_re l = None"
    using content_lines_no_match by simp
  have ns: "\<not> sublist (ustr ''no space left on device'')
       (py_lower ascii_interp (concat ([] @ [marker_text @ [10], header_text @ [10]] @ content_lines @ [])))"
    using classified_run_no_space[of ascii_interp] by simp
  have nk: "\<not> sublist (ustr ''Killed'')
       (concat ([] @ [marker_text @ [10], header_text @ [10]] @ content_lines @ []))"
    using classified_run_not_killed by simp
  from classify_example_buffer[OF rc eol dec length_content_lines others ns nk]
    classified_run_returncode classified_run_stderr length_content_lines
  show ?thesis by simp
qed

lemma example_lines_ascii:
  "\<forall>l\<in>set unclassifiable_lines. \<forall>c\<in>set l. c < 128"
  "\<forall>l\<in>set two_marker_lines. \<forall>c\<in>set l. c < 128"
  "\<forall>l\<in>set no_space_lines. \<forall>c\<in>set l. c < 128"
  "\<forall>l\<in>set killed_lines. \<forall>c\<in>set l. c < 128"
  "\<forall>l\<in>set short_lines. \<forall>c\<in>set l. c < 128"
  by code_simp+

lemma example_text_ascii:
  "\<forall>c\<in>set (concat unclassifiable_lines). c < 128"
  "\<forall>c\<in>set (concat two_marker_lines). c < 128"
  "\<forall>c\<in>set (concat short_lines). c < 128"
  by code_simp+

lemma example_stderr:
  "stderr_utf8 unclassifiable_run = Some unclassifiable_lines"
  "stderr_utf8 two_marker_run = Some two_marker_lines"
  "stderr_utf8 no_space_run = Some no_space_lines"
  "stderr_utf8 killed_run = Some killed_lines"
  "stderr_utf8 short_run = Some short_lines"
  by (rule stderr_utf8_ascii[OF _ example_lines_ascii(1)],
      simp add: unclassifiable_run_def,
      rule stderr_utf8_ascii[OF _ example_lines_ascii(2)],
      simp add: two_marker_run_def,
      rule stderr_utf8_ascii[OF _ example_lines_ascii(3)],
      simp add: no_space_run_def,
      rule stderr_utf8_ascii[OF _ example_lines_ascii(4)],
      simp add: killed_run_def,
      rule stderr_utf8_ascii[OF _ example_lines_ascii(5)],
      simp add: short_run_def)

lemma example_no_space:
  "\<not> sublist (ustr ''no space left on device'') (py_lower I (concat unclassifiable_lines))"
  "\<not> sublist (ustr ''no space left on device'') (py_lower I (concat two_marker_lines))"
  "\<not> sublist (ustr ''no space left on device'') (py_lower I (concat short_lines))"
  unfolding no_space_ascii[OF example_text_ascii(1)] no_space_ascii[OF example_text_ascii(2)]
    no_space_ascii[OF example_text_ascii(3)]
  by code_simp+

lemma example_not_killed:
  "\<not> sublist (ustr ''Killed'') (concat unclassifiable_lines)"
  "\<not> sublist (ustr ''Killed'') (concat two_marker_lines)"
  "\<not> sublist (ustr ''Killed'') (concat short_lines)"
  by code_simp+

lemma example_counts:
  "length (filter (\<lambda>line. re_match I first_error_line_re line \<noteq> None) unclassifiable_lines) = 0"
  "length (filter (\<lambda>line. re_match I first_error_line_re line \<noteq> None) two_marker_lines) = 2"
  "length (filter (\<lambda>line. re_match I first_error_line_re line \<noteq> None) short_lines) = 1"
  by code_simp+

theorem no_single_error_line_witness:
  "returncode unclassifiable_run = 2
   \<and> stderr_utf8 unclassifiable_run = Some unclassifiable_lines
   \<and> length (filter (\<lambda>line. re_match ascii_interp first_error_line_re line \<noteq> None)
        unclassifiable_lines) = 0
   \<and> canary ascii_interp quiet_world example_args unclassifiable_run = ([], SysExit 2)
   \<and> returncode two_marker_run = 100
   \<and> stderr_utf8 two_marker_run = Some two_marker_lines
   \<and> length (filter (\<lambda>line. re_match ascii_interp first_error_line_re line \<noteq> None)
        two_marker_lines) = 2
   \<and> canary ascii_interp quiet_world example_args two_marker_run = ([], SysExit 100)"
proof -
  have a1: "returncode unclassifiable_run \<noteq> 0" and a1': "returncode unclassifiable_run = 2"
    by (simp_all add: unclassifiable_run_def)
  have b1: "returncode two_marker_run \<noteq> 0" and b1': "returncode two_marker_run = 100"
    by (simp_all add: two_marker_run_def)
  have a5: "length (filter (\<lambda>line. re_match ascii_interp first_error_line_re line \<noteq> None)
        unclassifiable_lines) = 0
      \<or> 2 \<le> length (filter (\<lambda>line. re_match ascii_interp first_error_line_re line \<noteq> None)
        unclassifiable_lines)"
    using example_counts(1)[of ascii_interp] by simp
  have b5: "length (filter (\<lambda>line. re_match ascii_interp first_error_line_re line \<noteq> None)
        two_marker_lines) = 0
      \<or> 2 \<le> length (filter (\<lambda>line. re_match ascii_interp first_error_line_re line \<noteq> None)
        two_marker_lines)"
    using example_counts(2)[of ascii_interp] by simp
  have c1: "canary ascii_interp quiet_world example_args unclassifiable_run = ([], SysExit 2)"
    using no_single_error_line_propagates_returncode[OF a1 example_stderr(1) example_no_space(1) example_not_killed(1) a5,
             of quiet_world example_args] a1' by simp
  have c2: "canary ascii_interp quiet_world example_args two_marker_run = ([], SysExit 100)"
    using no_single_error_line_propagates_returncode[OF b1 example_stderr(2) example_no_space(2) example_not_killed(2) b5,
             of quiet_world example_args] b1' by simp
  show ?thesis
    using a1' c1 b1' c2 example_stderr(1,2) example_counts(1,2)[of ascii_interp] by blast
qed

theorem environmental_failure_witness:
  "stderr_utf8 no_space_run = Some no_space_lines
   \<and> sublist (ustr ''No Space Left on Device'') (concat no_space_lines)
   \<and> map ascii_lower (ustr ''No Space Left on Device'') = ustr ''no space left on device''
   \<and> returncode no_space_run = 1
   \<and> canary ascii_interp quiet_world example_args no_space_run = ([], SysExit 0)
   \<and> stderr_utf8 killed_run = Some killed_lines
   \<and> sublist (ustr ''Killed'') (concat killed_lines)
   \<and> returncode killed_run = 137
   \<and> canary ascii_interp quiet_world example_args killed_run = ([], SysExit 0)"
proof -
  have a2: "sublist (ustr ''No Space Left on Device'') (concat no_space_lines)" by code_simp
  have a3: "map ascii_lower (ustr ''No Space Left on Device'') = ustr ''no space left on device''"
    by code_simp
  have a4: "returncode no_space_run = 1" by (simp add: no_space_run_def)
  have b2: "sublist (ustr ''Killed'') (concat killed_lines)" by code_simp
  have b4: "returncode killed_run = 137" by (simp add: killed_run_def)
  have c1: "canary ascii_interp quiet_world example_args no_space_run = ([], SysExit 0)"
    using environmental_failure_exits_zero[OF example_stderr(3), of ascii_interp quiet_world example_args] a2 a3 by blast
  have c2: "canary ascii_interp quiet_world example_args killed_run = ([], SysExit 0)"
    using environmental_failure_exits_zero[OF example_stderr(4), of ascii_interp quiet_world example_args] b2 by blast
  show ?thesis using a2 a3 a4 c1 b2 b4 c2 example_stderr(3,4) by blast
qed

lemma short_run_classify:
  "classify I short_run =
     Inr \<lparr>first_error_line_ix = 0,
          failing_drv_hash = ustr ''abcdefghijklmnopqrstuvwxyz123456'',
          failing_pname_version = ustr ''foo-1.2.3'',
          excerpt = [ustr ''> builder failed'' @ [10]]\<rparr>"
proof -
  have rc: "returncode short_run \<noteq> 0" by (simp add: short_run_def)
  have eol: "[10::nat] = [] \<or> [10::nat] = [10]" by simp
  have dec: "stderr_utf8 short_run
     = Some ([] @ (marker_text @ [10]) # [header_text @ [10], ustr ''> builder failed'' @ [10]])"
    using example_stderr(5) by (simp add: short_lines_def)
  have others: "\<forall>l\<in>set ([] @ [header_text @ [10], ustr ''> builder failed'' @ [10]]).
      re_match I first_error_line_re l = None"
    by code_simp
  have ns: "\<not> sublist (ustr ''no space left on device'')
     (py_lower I (concat ([] @ (marker_text @ [10]) # [header_text @ [10], ustr ''> builder failed'' @ [10]])))"
    using example_no_space(3)[of I] by (simp add: short_lines_def)
  have nk: "\<not> sublist (ustr ''Killed'')
     (concat ([] @ (marker_text @ [10]) # [header_text @ [10], ustr ''> builder failed'' @ [10]]))"
    using example_not_killed(3) by (simp add: short_lines_def)
  from classify_marker_general[OF rc eol dec others ns nk] show ?thesis by simp
qed

theorem excerpt_ten_lines_counterexample:
  "stderr_utf8 short_run = Some short_lines
   \<and> length (filter (\<lambda>line. re_match ascii_interp first_error_line_re line \<noteq> None) short_lines) = 1
   \<and> classify ascii_interp short_run =
       Inr \<lparr>first_error_line_ix = 0,
            failing_drv_hash = ustr ''abcdefghijklmnopqrstuvwxyz123456'',
            failing_pname_version = ustr ''foo-1.2.3'',
            excerpt = [ustr ''> builder failed'' @ [10]]\<rparr>
   \<and> length (excerpt (projr (classify ascii_interp short_run))) = 1"
  using example_stderr(5) example_counts(3)[of ascii_interp] short_run_classify[of ascii_interp]
  by simp

lemma shifted_lines_ascii: "\<forall>l\<in>set shifted_lines. \<forall>c\<in>set l. c < 128"
  by code_simp

lemma shifted_text_ascii: "\<forall>c\<in>set (concat shifted_lines). c < 128"
  by code_simp

lemma shifted_stderr: "stderr_utf8 shifted_run = Some shifted_lines"
  by (rule stderr_utf8_ascii[OF _ shifted_lines_ascii], simp add: shifted_run_def)

lemma shifted_no_space:
  "\<not> sublist (ustr ''no space left on device'') (py_lower I (concat shifted_lines))"
  unfolding no_space_ascii[OF shifted_text_ascii]
  by code_simp

lemma shifted_not_killed: "\<not> sublist (ustr ''Killed'') (concat shifted_lines)"
  by code_simp

lemma shifted_run_classify:
  "classify I shifted_run =
     Inr \<lparr>first_error_line_ix = 2,
          failing_drv_hash = ustr ''abcdefghijklmnopqrstuvwxyz123456'',
          failing_pname_version = ustr ''foo-1.2.3'',
          excerpt = [ustr ''> builder failed'' @ [10]]\<rparr>"
proof -
  let ?pre = "[ustr ''building foo'' @ [10], ustr ''> make: warning'' @ [10]]"
  let ?rest = "[header_text @ [10], ustr ''> builder failed'' @ [10]]"
  have rc: "returncode shifted_run \<noteq> 0" by (simp add: shifted_run_def)
  have eol: "[10::nat] = [] \<or> [10::nat] = [10]" by simp
  have dec: "stderr_utf8 shifted_run = Some (?pre @ (marker_text @ [10]) # ?rest)"
    using shifted_stderr by (simp add: shifted_lines_def)
  have others: "\<forall>l\<in>set (?pre @ ?rest). re_match I first_error_line_re l = None"
    by code_simp
  have ns: "\<not> sublist (ustr ''no space left on device'')
     (py_lower I (concat (?pre @ (marker_text @ [10]) # ?rest)))"
    using shifted_no_space[of I] by (simp add: shifted_lines_def)
  have nk: "\<not> sublist (ustr ''Killed'') (concat (?pre @ (marker_text @ [10]) # ?rest))"
    using shifted_not_killed by (simp add: shifted_lines_def)
  from classify_marker_general[OF rc eol dec others ns nk] show ?thesis by simp
qed

theorem excerpt_is_clipped_slice_witness:
  "classify ascii_interp shifted_run =
     Inr \<lparr>first_error_line_ix = 2,
          failing_drv_hash = ustr ''abcdefghijklmnopqrstuvwxyz123456'',
          failing_pname_version = ustr ''foo-1.2.3'',
          excerpt = [ustr ''> builder failed'' @ [10]]\<rparr>
   \<and> stderr_utf8 shifted_run = Some shifted_lines
   \<and> length shifted_lines = 5
   \<and> shifted_lines ! 2 = marker_text @ [10]
   \<and> re_match ascii_interp first_error_line_re (shifted_lines ! 2) \<noteq> None
   \<and> re_match ascii_interp first_error_line_re (shifted_lines ! 0) = None
   \<and> [ustr ''> builder failed'' @ [10]] = take 10 (drop (2 + 2) shifted_lines)
   \<and> length [ustr ''> builder failed'' @ [10]] = min 10 (length shifted_lines - (2 + 2))
   \<and> classify ascii_interp classified_run = Inr example_failure
   \<and> length (excerpt example_failure) = 10"
proof -
  let ?f = "\<lparr>first_error_line_ix = 2,
          failing_drv_hash = ustr ''abcdefghijklmnopqrstuvwxyz123456'',
          failing_pname_version = ustr ''foo-1.2.3'',
          excerpt = [ustr ''> builder failed'' @ [10]]\<rparr>"
  have c: "classify ascii_interp shifted_run = Inr ?f" by (rule shifted_run_classify)
  have l: "length shifted_lines = 5" by (simp add: shifted_lines_def)
  have k: "shifted_lines ! 2 = marker_text @ [10]" by (simp add: shifted_lines_def)
  from excerpt_is_clipped_slice[OF c] shifted_stderr
  have s: "re_match ascii_interp first_error_line_re (shifted_lines ! 2) \<noteq> None"
    and u: "\<forall>i<length shifted_lines.
              re_match ascii_interp first_error_line_re (shifted_lines ! i) \<noteq> None \<longrightarrow> i = 2"
    and t: "[ustr ''> builder failed'' @ [10]] = take 10 (drop (2 + 2) shifted_lines)"
    and n: "length [ustr ''> builder failed'' @ [10]] = min 10 (length shifted_lines - (2 + 2))"
    by simp_all
  from u l have z: "re_match ascii_interp first_error_line_re (shifted_lines ! 0) = None"
    by fastforce
  from excerpt_is_clipped_slice[OF classified_run_classify[of ascii_interp]] classified_run_stderr
  have 2: "length (excerpt example_failure) = 10"
    by (simp add: length_content_lines example_failure_def)
  show ?thesis
    using c shifted_stderr l k s z t n 2 classified_run_classify[of ascii_interp] by blast
qed

subsection \<open>The matcher and the language of a pattern\<close>

lemma backtrack_None_iff:
  "backtrack k s lo n = None \<longleftrightarrow> (\<forall>m. lo \<le> m \<and> m \<le> n \<longrightarrow> k (drop m s) = None)"
proof (induction n)
  case 0
  show ?case by (auto)
next
  case (Suc n)
  show ?case
  proof (cases "Suc n < lo")
    case True
    then show ?thesis by auto
  next
    case False
    show ?thesis
    proof (cases "k (drop (Suc n) s)")
      case None
      have "(\<forall>m. lo \<le> m \<and> m \<le> Suc n \<longrightarrow> k (drop m s) = None)
            \<longleftrightarrow> (\<forall>m. lo \<le> m \<and> m \<le> n \<longrightarrow> k (drop m s) = None)"
        using None by (metis le_Suc_eq)
      with Suc None False show ?thesis by simp
    next
      case (Some ns)
      with False show ?thesis by (auto intro!: exI[of _ "Suc n"])
    qed
  qed
qed

lemma backtrack_NoneD:
  "backtrack k s lo n = None \<Longrightarrow> lo \<le> m \<Longrightarrow> m \<le> n \<Longrightarrow> k (drop m s) = None"
  using backtrack_None_iff[of k s lo n] by blast

lemma backtrack_Some:
  "backtrack k s lo n = Some ns \<Longrightarrow>
   \<exists>m ms. ns = m # ms \<and> lo \<le> m \<and> m \<le> n \<and> k (drop m s) = Some ms"
proof (induction n)
  case 0
  then show ?case by (auto split: if_splits)
next
  case (Suc n)
  show ?case
  proof (cases "k (drop (Suc n) s)")
    case None
    with Suc.prems have "backtrack k s lo n = Some ns" by (simp split: if_splits)
    from Suc.IH[OF this] show ?thesis by (auto intro: le_SucI)
  next
    case (Some ms)
    with Suc.prems show ?thesis by (auto split: if_splits)
  qed
qed

lemma backtrack_first:
  "lo \<le> n \<Longrightarrow> k (drop n s) = Some ms \<Longrightarrow> backtrack k s lo n = Some (n # ms)"
  by (cases n) auto

lemma greedy_max_le: "greedy_max I it s \<le> length s"
  by (cases it) (auto simp: Let_def length_takeWhile_le le_trans[OF min.cobounded1] split: option.splits)

lemma take_takeWhile_ok:
  assumes "k \<le> length (takeWhile P s)"
  shows "\<forall>c\<in>set (take k s). P c"
proof -
  have "takeWhile P s = take (length (takeWhile P s)) s"
    by (rule takeWhile_eq_take)
  then have "take k (takeWhile P s) = take k s"
    using assms by (metis min.absorb1 take_take)
  then have "set (take k s) \<subseteq> set (takeWhile P s)"
    by (metis set_take_subset)
  then show ?thesis by (auto dest: set_takeWhileD)
qed

lemma greedy_max_ok:
  "k \<le> greedy_max I it s \<Longrightarrow> \<forall>c\<in>set (take k s). cls_ok I (item_cls it) c"
proof (cases it)
  case (Rep c lo hi)
  assume "k \<le> greedy_max I it s"
  then have "k \<le> length (takeWhile (cls_ok I c) s)"
    using Rep by (auto simp: Let_def split: option.splits)
  from take_takeWhile_ok[OF this] show ?thesis using Rep by simp
qed

lemma greedy_max_max_ok: "k \<le> greedy_max I it s \<Longrightarrow> max_rep_ok it k"
  by (cases it) (auto simp: Let_def split: option.splits)

lemma greedy_max_greatest:
  assumes "k \<le> length s" "\<forall>c\<in>set (take k s). cls_ok I (item_cls it) c" "max_rep_ok it k"
  shows "k \<le> greedy_max I it s"
proof (cases it)
  case (Rep c lo hi)
  have "takeWhile (cls_ok I c) s = takeWhile (cls_ok I c) (take k s @ drop k s)" by simp
  also have "\<dots> = take k s @ takeWhile (cls_ok I c) (drop k s)"
    by (rule takeWhile_append2) (use assms(2) Rep in auto)
  finally have "k \<le> length (takeWhile (cls_ok I c) s)"
    using assms(1) by simp
  then show ?thesis
    using Rep assms(3) by (auto simp: Let_def split: option.splits)
qed

lemma match_items_sound:
  "match_items I p s = Some ns \<Longrightarrow>
   sum_list ns \<le> length s \<and> lang I p (take (sum_list ns) s)"
proof (induction p arbitrary: s ns)
  case Nil
  then show ?case by simp
next
  case (Cons it r)
  from Cons.prems have "backtrack (match_items I r) s (min_rep it) (greedy_max I it s) = Some ns"
    by simp
  from backtrack_Some[OF this] obtain m ms where
    ns: "ns = m # ms" and lo: "min_rep it \<le> m" and hi: "m \<le> greedy_max I it s"
    and r: "match_items I r (drop m s) = Some ms" by blast
  from Cons.IH[OF r] have len: "sum_list ms \<le> length (drop m s)"
    and l: "lang I r (take (sum_list ms) (drop m s))" by simp_all
  have ml: "m \<le> length s" using hi greedy_max_le[of I it s] by simp
  have tot: "sum_list ns \<le> length s" using ns len ml by simp
  have t1: "take m (take (sum_list ns) s) = take m s" using ns by (simp add: min_def)
  have t2: "drop m (take (sum_list ns) s) = take (sum_list ms) (drop m s)"
    using ns by (simp add: drop_take)
  have "lang I (it # r) (take (sum_list ns) s)"
    unfolding lang.simps
    apply (rule exI[of _ m])
    using tot ns lo greedy_max_max_ok[OF hi] greedy_max_ok[OF hi] l t1 t2
    by simp
  with tot show ?case by simp
qed

lemma match_items_complete:
  "lang I p u \<Longrightarrow> prefix u s \<Longrightarrow> match_items I p s \<noteq> None"
proof (induction p arbitrary: u s)
  case Nil
  then show ?case by simp
next
  case (Cons it r)
  from Cons.prems(1) obtain k where k: "k \<le> length u" "min_rep it \<le> k" "max_rep_ok it k"
    "\<forall>c\<in>set (take k u). cls_ok I (item_cls it) c" "lang I r (drop k u)"
    by auto
  from Cons.prems(2) obtain t where s: "s = u @ t" by (auto simp: prefix_def)
  have tk: "take k s = take k u" using k(1) s by simp
  have ks: "k \<le> length s" using k(1) s by simp
  have g: "k \<le> greedy_max I it s"
    by (rule greedy_max_greatest[OF ks _ k(3)]) (simp add: tk k(4))
  have "prefix (drop k u) (drop k s)" using s k(1) by simp
  from Cons.IH[OF k(5) this] have ne: "match_items I r (drop k s) \<noteq> None" .
  have "backtrack (match_items I r) s (min_rep it) (greedy_max I it s) \<noteq> None"
  proof
    assume a: "backtrack (match_items I r) s (min_rep it) (greedy_max I it s) = None"
    from backtrack_NoneD[OF a k(2) g] ne show False by contradiction
  qed
  then show ?case by simp
qed

lemma lang_nl_free: "nl_free I p \<Longrightarrow> lang I p u \<Longrightarrow> 10 \<notin> set u"
proof (induction p arbitrary: u)
  case Nil
  then show ?case by simp
next
  case (Cons it r)
  from Cons.prems(2) obtain k where k: "k \<le> length u"
    "\<forall>c\<in>set (take k u). cls_ok I (item_cls it) c" "lang I r (drop k u)"
    by auto
  have a: "\<not> cls_ok I (item_cls it) 10" and b: "nl_free I r"
    using Cons.prems(1) by (simp_all add: nl_free_def)
  have "10 \<notin> set (take k u)" using k(2) a by blast
  moreover have "10 \<notin> set (drop k u)" by (rule Cons.IH[OF b k(3)])
  ultimately show ?case by (metis append_take_drop_id set_append UnE)
qed

lemma lang_Nil_min: "lang I p [] \<Longrightarrow> \<forall>it\<in>set p. min_rep it = 0"
  by (induction p) auto

lemma to_eol_Star_Dot: "to_eol I (q @ [Star Dot])"
  unfolding to_eol_def
proof (induction q)
  case Nil
  show ?case
  proof (intro allI impI)
    fix s ns
    assume "match_items I ([] @ [Star Dot]) s = Some ns"
    moreover have "backtrack (match_items I []) s 0 (length (takeWhile (cls_ok I Dot) s))
                   = Some (length (takeWhile (cls_ok I Dot) s) # [])"
      by (rule backtrack_first) simp_all
    ultimately have ns: "ns = [length (takeWhile (cls_ok I Dot) s)]" by (simp add: Let_def)
    have "drop (length (takeWhile (cls_ok I Dot) s)) s = dropWhile (cls_ok I Dot) s"
      by (metis append_eq_conv_conj takeWhile_dropWhile_id)
    moreover have "dropWhile (cls_ok I Dot) s = [] \<or> hd (dropWhile (cls_ok I Dot) s) = 10"
      using hd_dropWhile[of "cls_ok I Dot" s] by auto
    ultimately show "drop (sum_list ns) s = [] \<or> hd (drop (sum_list ns) s) = 10"
      using ns by simp
  qed
next
  case (Cons it q)
  show ?case
  proof (intro allI impI)
    fix s ns
    assume "match_items I ((it # q) @ [Star Dot]) s = Some ns"
    then have "backtrack (match_items I (q @ [Star Dot])) s (min_rep it) (greedy_max I it s) = Some ns"
      by simp
    from backtrack_Some[OF this] obtain m ms where
      ns: "ns = m # ms" and r: "match_items I (q @ [Star Dot]) (drop m s) = Some ms" by blast
    from Cons r have "drop (sum_list ms) (drop m s) = [] \<or> hd (drop (sum_list ms) (drop m s)) = 10"
      by blast
    then show "drop (sum_list ns) s = [] \<or> hd (drop (sum_list ns) s) = 10"
      using ns by (simp add: add.commute)
  qed
qed

subsection \<open>Texts without a match\<close>

lemma re_search_None_iff:
  "re_search I p s = None \<longleftrightarrow> (\<forall>i\<le>length s. match_items I p (drop i s) = None)"
proof (induction s)
  case Nil
  show ?case by simp
next
  case (Cons c cs)
  show ?case
  proof (cases "match_items I p (c # cs)")
    case None
    have "(\<forall>i\<le>length (c # cs). match_items I p (drop i (c # cs)) = None)
          \<longleftrightarrow> (\<forall>i\<le>length cs. match_items I p (drop i cs) = None)"
    proof
      assume a: "\<forall>i\<le>length (c # cs). match_items I p (drop i (c # cs)) = None"
      show "\<forall>i\<le>length cs. match_items I p (drop i cs) = None"
      proof (intro allI impI)
        fix i assume "i \<le> length cs"
        then have "Suc i \<le> length (c # cs)" by simp
        from a[rule_format, OF this] show "match_items I p (drop i cs) = None" by simp
      qed
    next
      assume a: "\<forall>i\<le>length cs. match_items I p (drop i cs) = None"
      show "\<forall>i\<le>length (c # cs). match_items I p (drop i (c # cs)) = None"
      proof (intro allI impI)
        fix i assume i: "i \<le> length (c # cs)"
        show "match_items I p (drop i (c # cs)) = None"
        proof (cases i)
          case 0
          with None show ?thesis by simp
        next
          case (Suc j)
          with i have "j \<le> length cs" by simp
          from a[rule_format, OF this] Suc show ?thesis by simp
        qed
      qed
    qed
    with Cons None show ?thesis by simp
  next
    case (Some ns)
    then have "\<not> (\<forall>i\<le>length (c # cs). match_items I p (drop i (c # cs)) = None)"
      by (auto intro!: exI[of _ 0])
    with Some show ?thesis by simp
  qed
qed

lemma clean_iff:
  "clean I p s \<longleftrightarrow> (\<forall>i\<le>length s. match_items I p (drop i s) = None)"
proof
  assume c: "clean I p s"
  show "\<forall>i\<le>length s. match_items I p (drop i s) = None"
  proof (intro allI impI)
    fix i assume "i \<le> length s"
    show "match_items I p (drop i s) = None"
    proof (rule ccontr)
      assume "match_items I p (drop i s) \<noteq> None"
      then obtain ns where "match_items I p (drop i s) = Some ns" by auto
      from match_items_sound[OF this]
      have l: "lang I p (take (sum_list ns) (drop i s))" by simp
      have "sublist (take (sum_list ns) (drop i s)) s"
        by (meson sublist_order.order_trans sublist_take sublist_drop)
      with c l show False by (simp add: clean_def)
    qed
  qed
next
  assume a: "\<forall>i\<le>length s. match_items I p (drop i s) = None"
  show "clean I p s"
    unfolding clean_def
  proof (intro allI impI)
    fix u assume "sublist u s"
    then obtain x y where s: "s = x @ u @ y" by (auto simp: sublist_def)
    show "\<not> lang I p u"
    proof
      assume l: "lang I p u"
      have pr: "prefix u (drop (length x) s)" using s by simp
      have ne: "match_items I p (drop (length x) s) \<noteq> None"
        by (rule match_items_complete[OF l pr])
      have "length x \<le> length s" using s by simp
      from a[rule_format, OF this] have "match_items I p (drop (length x) s) = None" .
      with ne show False by contradiction
    qed
  qed
qed

lemma re_search_clean: "re_search I p s = None \<longleftrightarrow> clean I p s"
  by (simp only: re_search_None_iff clean_iff)

lemma clean_Cons: "clean I p (c # cs) \<Longrightarrow> clean I p cs"
  by (auto simp: clean_def sublist_Cons_right)

lemma clean_head: "clean I p s \<Longrightarrow> match_items I p s = None"
  using clean_iff[of I p s] by (metis drop0 le0)

lemma re_sub_clean: "clean I p s \<Longrightarrow> re_sub I p repl s = s"
proof (induction s)
  case Nil
  then show ?case using clean_head[of I p "[]"] by simp
next
  case (Cons c cs)
  from clean_head[OF Cons.prems] clean_Cons[OF Cons.prems] Cons.IH
  show ?case by simp
qed

subsection \<open>Deleting matches that run to the end of the line\<close>

declare sum_list_eq_0_iff [simp del]

lemma match_length_pos:
  assumes "\<not> lang I p []" and "match_items I p s = Some ns"
  shows "sum_list ns \<noteq> 0"
proof
  assume "sum_list ns = 0"
  with match_items_sound[OF assms(2)] have "lang I p []" by simp
  with assms(1) show False by simp
qed

lemma to_eolD:
  assumes "to_eol I p" and "match_items I p s = Some ns"
  shows "drop (sum_list ns) s = [] \<or> hd (drop (sum_list ns) s) = 10"
  using assms(1)[unfolded to_eol_def, rule_format, OF assms(2)] .

lemma re_sub_prefix:
  assumes e: "to_eol I p"
  shows "prefix u (re_sub I p [] s) \<Longrightarrow> 10 \<notin> set u \<Longrightarrow> prefix u s"
proof (induction s arbitrary: u rule: length_induct)
  case (1 s)
  show ?case
  proof (cases s)
    case Nil
    with "1.prems" show ?thesis by (simp split: option.splits)
  next
    case (Cons c cs)
    have copy: "prefix u (c # re_sub I p [] cs) \<Longrightarrow> prefix u (c # cs)"
    proof -
      assume a: "prefix u (c # re_sub I p [] cs)"
      show "prefix u (c # cs)"
      proof (cases u)
        case Nil
        then show ?thesis by simp
      next
        case (Cons d u')
        with a have d: "d = c" and p: "prefix u' (re_sub I p [] cs)" by simp_all
        have "10 \<notin> set u'" using "1.prems"(2) Cons by simp
        moreover have "length cs < length s" using \<open>s = c # cs\<close> by simp
        ultimately have "prefix u' cs" using "1.IH" p by simp
        with d Cons show ?thesis by simp
      qed
    qed
    show ?thesis
    proof (cases "match_items I p (c # cs)")
      case None
      with "1.prems"(1) Cons copy show ?thesis by simp
    next
      case (Some ns)
      show ?thesis
      proof (cases "sum_list ns = 0")
        case True
        with "1.prems"(1) Cons Some copy show ?thesis by simp
      next
        case False
        let ?r = "drop (sum_list ns) (c # cs)"
        have r: "re_sub I p [] (c # cs) = re_sub I p [] ?r"
          using Some False by simp
        have "length ?r < length s" using False Cons by simp
        with "1.IH" "1.prems" r Cons have pr: "prefix u ?r" by simp
        have "?r = [] \<or> hd ?r = 10" by (rule to_eolD[OF e Some])
        then have "u = []"
        proof
          assume "?r = []"
          with pr show ?thesis by simp
        next
          assume h: "hd ?r = 10"
          show ?thesis
          proof (rule ccontr)
            assume "u \<noteq> []"
            then obtain d u' where u: "u = d # u'" by (cases u) auto
            with pr obtain t where "?r = d # u' @ t" by (auto simp: prefix_def)
            with h have "d = 10" by simp
            with u "1.prems"(2) show False by simp
          qed
        qed
        then show ?thesis by simp
      qed
    qed
  qed
qed

lemma re_sub_sublist:
  assumes e: "to_eol I p"
  shows "sublist u (re_sub I p [] s) \<Longrightarrow> 10 \<notin> set u \<Longrightarrow> sublist u s"
proof (induction s rule: length_induct)
  case (1 s)
  show ?case
  proof (cases s)
    case Nil
    with "1.prems" show ?thesis by (simp split: option.splits)
  next
    case (Cons c cs)
    have copy: "re_sub I p [] s = c # re_sub I p [] cs \<Longrightarrow> sublist u s"
    proof -
      assume eq: "re_sub I p [] s = c # re_sub I p [] cs"
      with "1.prems"(1) have "prefix u (re_sub I p [] s) \<or> sublist u (re_sub I p [] cs)"
        by (simp add: sublist_Cons_right)
      then show "sublist u s"
      proof
        assume "prefix u (re_sub I p [] s)"
        from re_sub_prefix[OF e this "1.prems"(2)] show ?thesis by (rule prefix_imp_sublist)
      next
        assume a: "sublist u (re_sub I p [] cs)"
        have "length cs < length s" using Cons by simp
        with "1.IH" a "1.prems"(2) have "sublist u cs" by simp
        then show ?thesis using Cons by (simp add: sublist_Cons_right)
      qed
    qed
    show ?thesis
    proof (cases "match_items I p (c # cs)")
      case None
      with Cons copy show ?thesis by simp
    next
      case (Some ns)
      show ?thesis
      proof (cases "sum_list ns = 0")
        case True
        with Cons Some copy show ?thesis by simp
      next
        case False
        let ?r = "drop (sum_list ns) (c # cs)"
        have r: "re_sub I p [] (c # cs) = re_sub I p [] ?r"
          using Some False by simp
        have "length ?r < length s" using False Cons by simp
        with "1.IH" "1.prems" r Cons have "sublist u ?r" by simp
        then have "sublist u (c # cs)"
          by (meson sublist_order.order_trans sublist_drop)
        with Cons show ?thesis by simp
      qed
    qed
  qed
qed

lemma re_sub_keeps_clean:
  assumes "to_eol I p" and "nl_free I q" and "clean I q s"
  shows "clean I q (re_sub I p [] s)"
  unfolding clean_def
proof (intro allI impI)
  fix u assume u: "sublist u (re_sub I p [] s)"
  show "\<not> lang I q u"
  proof
    assume l: "lang I q u"
    from lang_nl_free[OF assms(2) l] have "10 \<notin> set u" .
    from re_sub_sublist[OF assms(1) u this] have "sublist u s" .
    with assms(3) l show False by (simp add: clean_def)
  qed
qed

lemma re_sub_makes_clean:
  assumes e: "to_eol I p" and n: "nl_free I p" and z: "\<not> lang I p []"
  shows "clean I p (re_sub I p [] s)"
proof (induction s rule: length_induct)
  case (1 s)
  show ?case
  proof (cases s)
    case Nil
    have "clean I p []" using z by (simp add: clean_def)
    with Nil show ?thesis by (simp split: option.splits)
  next
    case (Cons c cs)
    show ?thesis
    proof (cases "match_items I p (c # cs)")
      case None
      have eq: "re_sub I p [] s = c # re_sub I p [] cs" using None Cons by simp
      have ih: "clean I p (re_sub I p [] cs)" using "1.IH" Cons by simp
      show ?thesis
        unfolding clean_def
      proof (intro allI impI)
        fix u assume u: "sublist u (re_sub I p [] s)"
        show "\<not> lang I p u"
        proof
          assume l: "lang I p u"
          from u eq have "prefix u (re_sub I p [] s) \<or> sublist u (re_sub I p [] cs)"
            by (simp add: sublist_Cons_right)
          then show False
          proof
            assume pr: "prefix u (re_sub I p [] s)"
            from re_sub_prefix[OF e pr lang_nl_free[OF n l]] have "prefix u s" .
            from match_items_complete[OF l this] None Cons show False by simp
          next
            assume "sublist u (re_sub I p [] cs)"
            with ih l show False by (simp add: clean_def)
          qed
        qed
      qed
    next
      case (Some ns)
      from match_length_pos[OF z Some] have pos: "sum_list ns \<noteq> 0" .
      let ?r = "drop (sum_list ns) (c # cs)"
      have r: "re_sub I p [] (c # cs) = re_sub I p [] ?r"
        using Some pos by simp
      have "length ?r < length s" using pos Cons by simp
      with "1.IH" have "clean I p (re_sub I p [] ?r)" by simp
      with r Cons show ?thesis by simp
    qed
  qed
qed

declare sum_list_eq_0_iff [simp]

subsection \<open>The patterns of the normaliser\<close>

lemma nl_free_patterns:
  "nl_free I decimal_seconds_re" "nl_free I hms_re" "nl_free I minutes_re"
  "nl_free I seconds_re" "nl_free I store_path_re" "nl_free I bazel_re"
  "nl_free I info_re" "nl_free I semver_re"
  by code_simp+

lemma to_eol_patterns: "to_eol I bazel_re" "to_eol I info_re"
proof -
  have "bazel_re = (lits ''> ['' @ [Star comma_digit_plus] @ lits '' / '' @ [Star comma_digit_plus]
              @ lits ''] '') @ [Star Dot]"
    by (simp add: bazel_re_def)
  then show "to_eol I bazel_re" by (metis to_eol_Star_Dot)
  have "info_re = lits ''> INFO:'' @ [Star Dot]" by (simp add: info_re_def)
  then show "to_eol I info_re" by (metis to_eol_Star_Dot)
qed

lemma nonempty_patterns: "\<not> lang I bazel_re []" "\<not> lang I info_re []"
  using lang_Nil_min[of I bazel_re] lang_Nil_min[of I info_re]
  by (auto simp: bazel_re_def info_re_def lits_def)

lemma purify_clean:
  assumes "clean I decimal_seconds_re x" "clean I hms_re x" "clean I minutes_re x"
    "clean I seconds_re x" "clean I store_path_re x" "clean I semver_re x"
  shows "purify I x = re_sub I info_re [] (re_sub I bazel_re [] x)"
proof -
  let ?y = "re_sub I info_re [] (re_sub I bazel_re [] x)"
  have "clean I semver_re ?y"
    by (intro re_sub_keeps_clean to_eol_patterns nl_free_patterns assms)
  then show ?thesis
    by (simp add: purify_def re_sub_clean assms)
qed

lemma purify_output_clean:
  assumes "clean I q x" "nl_free I q"
  shows "clean I q (re_sub I info_re [] (re_sub I bazel_re [] x))"
  by (intro re_sub_keeps_clean to_eol_patterns assms)

lemma purify_fixpoint:
  assumes "clean I decimal_seconds_re x" "clean I hms_re x" "clean I minutes_re x"
    "clean I seconds_re x" "clean I store_path_re x" "clean I semver_re x"
  shows "purify I (purify I x) = purify I x"
proof -
  let ?y = "re_sub I info_re [] (re_sub I bazel_re [] x)"
  have p: "purify I x = ?y" by (rule purify_clean[OF assms])
  have b: "clean I bazel_re ?y"
    by (intro re_sub_keeps_clean re_sub_makes_clean to_eol_patterns nl_free_patterns
          nonempty_patterns)
  have i: "clean I info_re ?y"
    by (intro re_sub_makes_clean to_eol_patterns nl_free_patterns nonempty_patterns)
  have "purify I ?y = re_sub I info_re [] (re_sub I bazel_re [] ?y)"
    by (intro purify_clean purify_output_clean nl_free_patterns assms)
  also have "\<dots> = ?y" by (simp add: re_sub_clean b i)
  finally show ?thesis by (simp add: p)
qed

text \<open>
  On a text in which the patterns of the script themselves find no duration, store
  path or version, normalising the normalised text again changes nothing.
\<close>

lemma purify_idempotent_without_matches:
  assumes "re_search I decimal_seconds_re (concat ls) = None"
    and "re_search I hms_re (concat ls) = None"
    and "re_search I minutes_re (concat ls) = None"
    and "re_search I seconds_re (concat ls) = None"
    and "re_search I store_path_re (concat ls) = None"
    and "re_search I semver_re (concat ls) = None"
  shows "last_10_log_lines_pure I [last_10_log_lines_pure I ls]
         = last_10_log_lines_pure I ls"
  using purify_fixpoint[of I "concat ls"] assms
  by (simp add: last_10_log_lines_pure_def re_search_clean)

lemma purify_idempotent_progress_excerpt:
  "re_search ascii_interp decimal_seconds_re (concat progress_excerpt) = None
   \<and> re_search ascii_interp hms_re (concat progress_excerpt) = None
   \<and> re_search ascii_interp minutes_re (concat progress_excerpt) = None
   \<and> re_search ascii_interp seconds_re (concat progress_excerpt) = None
   \<and> re_search ascii_interp store_path_re (concat progress_excerpt) = None
   \<and> re_search ascii_interp semver_re (concat progress_excerpt) = None
   \<and> last_10_log_lines_pure ascii_interp progress_excerpt = [10, 10] @ ustr ''> error: boom'' @ [10]
   \<and> last_10_log_lines_pure ascii_interp [last_10_log_lines_pure ascii_interp progress_excerpt]
       = last_10_log_lines_pure ascii_interp progress_excerpt"
proof -
  have h: "re_search ascii_interp decimal_seconds_re (concat progress_excerpt) = None"
    "re_search ascii_interp hms_re (concat progress_excerpt) = None"
    "re_search ascii_interp minutes_re (concat progress_excerpt) = None"
    "re_search ascii_interp seconds_re (concat progress_excerpt) = None"
    "re_search ascii_interp store_path_re (concat progress_excerpt) = None"
    "re_search ascii_interp semver_re (concat progress_excerpt) = None"
    by code_simp+
  have v: "last_10_log_lines_pure ascii_interp progress_excerpt
           = [10, 10] @ ustr ''> error: boom'' @ [10]"
    by code_simp
  from purify_idempotent_without_matches[OF h] h v show ?thesis by simp
qed

text \<open>
  C7 at a failing input: an excerpt without a dot, a time, minutes, seconds, a store
  path or a version is normalised to a text that a second normalisation changes again.
\<close>

theorem purify_twice_differs:
  "(of_char CHR ''.'' :: nat) \<notin> set (concat size_excerpt)
   \<and> re_search I hms_re (concat size_excerpt) = None
   \<and> re_search I minutes_re (concat size_excerpt) = None
   \<and> re_search I seconds_re (concat size_excerpt) = None
   \<and> re_search I store_path_re (concat size_excerpt) = None
   \<and> re_search I semver_re (concat size_excerpt) = None
   \<and> last_10_log_lines_pure I size_excerpt = ustr ''got: 5x6size'' @ [10]
   \<and> last_10_log_lines_pure I [last_10_log_lines_pure I size_excerpt] = ustr ''got: ize'' @ [10]
   \<and> last_10_log_lines_pure I [last_10_log_lines_pure I size_excerpt]
       \<noteq> last_10_log_lines_pure I size_excerpt"
proof -
  have d: "(of_char CHR ''.'' :: nat) \<notin> set (concat size_excerpt)"
    by code_simp
  have h: "re_search I hms_re (concat size_excerpt) = None"
    "re_search I minutes_re (concat size_excerpt) = None"
    "re_search I seconds_re (concat size_excerpt) = None"
    "re_search I store_path_re (concat size_excerpt) = None"
    "re_search I semver_re (concat size_excerpt) = None"
    by code_simp+
  have a: "last_10_log_lines_pure I size_excerpt = ustr ''got: 5x6size'' @ [10]"
    by code_simp
  have b: "last_10_log_lines_pure I [ustr ''got: 5x6size'' @ [10]] = ustr ''got: ize'' @ [10]"
    by code_simp
  have n: "ustr ''got: ize'' @ [10] \<noteq> ustr ''got: 5x6size'' @ [10]"
    by code_simp
  show ?thesis using d h a b n by simp
qed

theorem purify_twice_differs_witness:
  "last_10_log_lines_pure ascii_interp [last_10_log_lines_pure ascii_interp size_excerpt]
   \<noteq> last_10_log_lines_pure ascii_interp size_excerpt"
  by (rule purify_twice_differs[of ascii_interp,
        THEN conjunct2, THEN conjunct2, THEN conjunct2, THEN conjunct2, THEN conjunct2,
        THEN conjunct2, THEN conjunct2, THEN conjunct2])

text \<open>
  C8 at a failing input: two excerpts that differ in a store path hash only are
  normalised to different texts, and so give different texts to hash for the logs tag.
\<close>

theorem store_hash_changes_logs_tag_text:
  "length hash_a = 32 \<and> length hash_b = 32
   \<and> list_all (cls_ok I Word) hash_a \<and> list_all (cls_ok I Word) hash_b
   \<and> last_10_log_lines_pure I [store_line hash_a]
       = ustr ''> ld: /nix/store/bbbbbbbbbbbbbbbbbbbbbbbbbbbb-gcc: no'' @ [10]
   \<and> last_10_log_lines_pure I [store_line hash_b] = ustr ''> ld: -gcc: no'' @ [10]
   \<and> logs_tag_text pv (last_10_log_lines_pure I [store_line hash_a])
       \<noteq> logs_tag_text pv (last_10_log_lines_pure I [store_line hash_b])"
proof -
  have a: "last_10_log_lines_pure I [store_line hash_a]
       = ustr ''> ld: /nix/store/bbbbbbbbbbbbbbbbbbbbbbbbbbbb-gcc: no'' @ [10]"
    by code_simp
  have b: "last_10_log_lines_pure I [store_line hash_b] = ustr ''> ld: -gcc: no'' @ [10]"
    by code_simp
  have l: "length hash_a = 32" "length hash_b = 32"
    "list_all (cls_ok I Word) hash_a" "list_all (cls_ok I Word) hash_b"
    by code_simp+
  have "ustr ''> ld: /nix/store/bbbbbbbbbbbbbbbbbbbbbbbbbbbb-gcc: no'' @ [10]
        \<noteq> ustr ''> ld: -gcc: no'' @ [10]"
    by code_simp
  with a b have "logs_tag_text pv (last_10_log_lines_pure I [store_line hash_a])
       \<noteq> logs_tag_text pv (last_10_log_lines_pure I [store_line hash_b])"
    by (simp add: logs_tag_text_def)
  with a b l show ?thesis by simp
qed

theorem store_hash_changes_logs_tag_text_witness:
  "logs_tag_text (ustr ''foo-1.2.3'') (last_10_log_lines_pure ascii_interp [store_line hash_a])
   \<noteq> logs_tag_text (ustr ''foo-1.2.3'') (last_10_log_lines_pure ascii_interp [store_line hash_b])"
  by (rule store_hash_changes_logs_tag_text[of ascii_interp "ustr ''foo-1.2.3''",
        THEN conjunct2, THEN conjunct2, THEN conjunct2, THEN conjunct2, THEN conjunct2,
        THEN conjunct2])

subsection \<open>The derivation tag\<close>

lemma drv_tag_is_hash_of_text:
  "drv_tag I d = str_hash I (ustr ''nixpkgs-upkeep '' @ d)"
  by (simp add: drv_tag_def drv_tag_text_def)

end
